theory Spec2Isabelle
  imports Main "HOL-Library.AList" "HOL-Library.Multiset"
begin

section \<open>Data model of the timeline service\<close>

text \<open>
  The service module talks to a public social-graph API through an agent object and
  exposes \<open>resolveHandle\<close>, \<open>getMergedTimeline\<close> and \<open>getUserTimeline\<close>.
  Payloads the source types as \<open>any\<close> (the post record, the embed) are carried around
  unchanged; they are modelled as JSON values.
\<close>

datatype json =
    JNull
  | JBool bool
  | JNum int
  | JStr string
  | JArr "json list"
  | JObj "(string \<times> json) list"

text \<open>
  Account snapshots. The three record types extend each other the way the source's
  object shapes do: \<open>repostedBy\<close> holds \<open>did\<close>, \<open>handle\<close>, \<open>displayName\<close>;
  a Post's \<open>author\<close> adds \<open>avatar\<close>; a profile sent by the API adds \<open>labels\<close>.
\<close>

record label =
  val :: string

record actorRef =
  did :: string
  handle :: string
  displayName :: "string option"

record authorInfo = actorRef +
  avatar :: "string option"

record profileView = authorInfo +
  labels :: "label list option"

text \<open>What the API sends: a post view, an optional reason, a feed page.\<close>

record postView =
  pv_uri :: string
  pv_cid :: string
  pv_author :: profileView
  pv_record :: json
  pv_embed :: "json option"
  pv_indexedAt :: string

text \<open>
  The reason of a feed entry is an open union tagged by \<open>$type\<close>; the source reads its
  \<open>by\<close> member through a cast to \<open>any\<close>, so the member may be missing.
\<close>

record reasonView =
  reason_type :: string
  reason_by :: "profileView option"

record feedViewPost =
  post :: postView
  reason :: "reasonView option"

record feedResponse =
  feed :: "feedViewPost list"
  cursor :: "string option"

text \<open>The exported interface \<open>Post\<close>.\<close>

record Post =
  uri :: string
  cid :: string
  author :: authorInfo
  precord :: json
  embed :: "json option"
  indexedAt :: string
  repostedBy :: "actorRef option"

text \<open>
  A rejected promise carries an error: either whatever the API client threw, or the
  TypeError of reading a member of \<open>undefined\<close>.
\<close>

datatype error = UpstreamError string | TypeError

text \<open>
  The agent is the external collaborator. Its three endpoints are parameters of the
  model: each answers a request with an error or with the response data. How long a feed
  request takes to settle is the collaborator's too: \<open>agent_settleTime\<close> gives the
  time between issuing the request and its settling.
\<close>

record agent =
  agent_resolveHandle :: "string \<Rightarrow> error + string"
  agent_getFollows :: "string \<Rightarrow> nat \<Rightarrow> error + profileView list"
  agent_getAuthorFeed :: "string \<Rightarrow> nat \<Rightarrow> string option \<Rightarrow> error + feedResponse"
  agent_settleTime :: "string \<Rightarrow> nat \<Rightarrow> string option \<Rightarrow> nat"

text \<open>
  Effects. The world records the requests issued to the agent and the diagnostics
  written to the console, in the order in which they happen, and holds the \<open>Map\<close>
  objects that exist: a reference to a \<open>Map\<close> is its index in \<open>maps\<close>, and a \<open>Map\<close>
  is the list of its entries in insertion order.
\<close>

datatype call =
    ResolveHandle string
  | GetFollows string nat
  | GetAuthorFeed string nat "string option"
  | ConsoleError string error

record world =
  calls :: "call list"
  maps :: "(string \<times> string) list list"

definition emit :: "call \<Rightarrow> world \<Rightarrow> world" where
  "emit c w = w\<lparr>calls := calls w @ [c]\<rparr>"

text \<open>\<open>new Map()\<close>: a fresh, empty object.\<close>

definition newMap :: "world \<Rightarrow> nat \<times> world" where
  "newMap w = (length (maps w), w\<lparr>maps := maps w @ [[]]\<rparr>)"

text \<open>\<open>m.get(k)\<close> and \<open>m.set(k, v)\<close> on the object behind reference \<open>r\<close>.\<close>

definition mapGet :: "world \<Rightarrow> nat \<Rightarrow> string \<Rightarrow> string option" where
  "mapGet w r k = map_of (maps w ! r) k"

definition mapSet :: "nat \<Rightarrow> string \<Rightarrow> string \<Rightarrow> world \<Rightarrow> world" where
  "mapSet r k v w = w\<lparr>maps := (maps w)[r := AList.update k v (maps w ! r)]\<rparr>"

section \<open>resolveHandle\<close>

text \<open>\<open>s.startsWith(p)\<close>\<close>

definition startsWith :: "string \<Rightarrow> string \<Rightarrow> bool" where
  "startsWith s p = (take (length p) s = p)"

definition resolveHandle :: "agent \<Rightarrow> world \<Rightarrow> string \<Rightarrow> (error + string) \<times> world" where
  "resolveHandle ag w h =
     (if startsWith h ''did:'' then (Inr h, w)
      else (agent_resolveHandle ag h, emit (ResolveHandle h) w))"

section \<open>getMergedTimeline\<close>

text \<open>
  The follow filter: \<open>profile.labels == null || !profile.labels.some(label => label.val === "!no-unauthenticated")\<close>.
\<close>

definition keepFollow :: "profileView \<Rightarrow> bool" where
  "keepFollow profile =
     (case labels profile of
        None \<Rightarrow> True
      | Some ls \<Rightarrow> \<not> list_ex (\<lambda>l. val l = ''!no-unauthenticated'') ls)"

definition batchSize :: nat where
  "batchSize = 5"

text \<open>\<open>xs.slice(i, j)\<close> for \<open>0 \<le> i \<le> j\<close>; the end is clamped to the length.\<close>

definition slice :: "'a list \<Rightarrow> nat \<Rightarrow> nat \<Rightarrow> 'a list" where
  "slice xs i j = take (j - i) (drop i xs)"

text \<open>\<open>cursorMap?.get(k)\<close>: \<open>undefined\<close> when there is no map or no entry.\<close>

definition cursorGet :: "world \<Rightarrow> nat option \<Rightarrow> string \<Rightarrow> string option" where
  "cursorGet w cm k = (case cm of None \<Rightarrow> None | Some r \<Rightarrow> mapGet w r k)"

text \<open>
  \<open>batch.map(f => agent...getAuthorFeed({actor: f.did, limit: 10, cursor: cursorMap?.get(f.did)}) ...)\<close>
  issues the requests of a batch one after the other, in the batch's order, before any of
  them settles. Each pending request is kept with the time it will take to settle and
  the answer the agent will give to it.
\<close>

fun issue ::
  "agent \<Rightarrow> nat option \<Rightarrow> profileView list \<Rightarrow> world \<Rightarrow>
     (profileView \<times> nat \<times> (error + feedResponse)) list \<times> world" where
  "issue ag cm [] w = ([], w)"
| "issue ag cm (f # fs) w =
     (let c = cursorGet w cm (did f);
          w1 = emit (GetAuthorFeed (did f) 10 c) w;
          (rs, w2) = issue ag cm fs w1
      in ((f, agent_settleTime ag (did f) 10 c, agent_getAuthorFeed ag (did f) 10 c) # rs, w2))"

text \<open>
  The \<open>then\<close> / \<open>catch\<close> handlers of one request: a successful answer stores its cursor
  in \<open>newCursorMap\<close> when the cursor is truthy (present and not the empty string) and
  yields the feed; a failed one is written to the console and yields \<open>[]\<close>.
\<close>

definition onSettled ::
  "nat \<Rightarrow> profileView \<Rightarrow> error + feedResponse \<Rightarrow> world \<Rightarrow> feedViewPost list \<times> world" where
  "onSettled ncm f r w =
     (case r of
        Inr res \<Rightarrow>
          (feed res,
           (case cursor res of
              None \<Rightarrow> w
            | Some c \<Rightarrow> if c \<noteq> [] then mapSet ncm (did f) c w else w))
      | Inl e \<Rightarrow> ([], emit (ConsoleError (handle f) e) w))"

text \<open>
  The handlers run when their requests settle: in the order of the settle times, and in
  the order of issue among requests that settle at the same time. Their effects on the
  world happen in that order.
\<close>

fun runHandlers ::
  "nat \<Rightarrow> (profileView \<times> nat \<times> (error + feedResponse)) list \<Rightarrow> world \<Rightarrow> world" where
  "runHandlers ncm [] w = w"
| "runHandlers ncm ((f, t, r) # rest) w = runHandlers ncm rest (snd (onSettled ncm f r w))"

text \<open>
  \<open>await Promise.all(feedPromises)\<close>: waits until every request of the batch has
  settled and its handler has run, and gives the values of the handlers in the batch's
  order, whatever the order of completion.
\<close>

definition settle ::
  "nat \<Rightarrow> (profileView \<times> nat \<times> (error + feedResponse)) list \<Rightarrow> world \<Rightarrow>
     feedViewPost list list \<times> world" where
  "settle ncm rs w =
     (map (\<lambda>(f, t, r). fst (onSettled ncm f r w)) rs,
      runHandlers ncm (sort_key (\<lambda>(f, t, r). t) rs) w)"

definition fetchBatch ::
  "agent \<Rightarrow> nat option \<Rightarrow> nat \<Rightarrow> profileView list \<Rightarrow> world \<Rightarrow>
     feedViewPost list list \<times> world" where
  "fetchBatch ag cm ncm batch w =
     (let (rs, w1) = issue ag cm batch w in settle ncm rs w1)"

text \<open>
  The projection of a feed entry into a \<open>Post\<close> (the object literal of the \<open>map\<close>
  callback). The members are evaluated in order; only \<open>repostedBy\<close> can throw, when the
  reason carries the repost tag but no \<open>by\<close> member.
\<close>

definition repostTag :: string where
  "repostTag = ''app.bsky.feed.defs#skeletonReasonRepost''"

definition isRepost :: "feedViewPost \<Rightarrow> bool" where
  "isRepost f = (case reason f of None \<Rightarrow> False | Some r \<Rightarrow> reason_type r = repostTag)"

definition toPost :: "feedViewPost \<Rightarrow> error + Post" where
  "toPost f =
     (let a = pv_author (post f);
          p = \<lparr>uri = pv_uri (post f),
               cid = pv_cid (post f),
               author = \<lparr>did = did a, handle = handle a,
                         displayName = displayName a, avatar = avatar a\<rparr>,
               precord = pv_record (post f),
               embed = pv_embed (post f),
               indexedAt = pv_indexedAt (post f),
               repostedBy = None\<rparr>
      in if isRepost f then
           (case reason f of
              None \<Rightarrow> Inr p
            | Some r \<Rightarrow>
                (case reason_by r of
                   None \<Rightarrow> Inl TypeError
                 | Some b \<Rightarrow>
                     Inr (p\<lparr>repostedBy :=
                               Some \<lparr>did = did b, handle = handle b,
                                     displayName = displayName b\<rparr>\<rparr>)))
         else Inr p)"

text \<open>\<open>xs.map(g)\<close> with a callback that may throw: the first exception ends the map.\<close>

fun mapE :: "('a \<Rightarrow> error + 'b) \<Rightarrow> 'a list \<Rightarrow> error + 'b list" where
  "mapE g [] = Inr []"
| "mapE g (x # xs) =
     (case g x of
        Inl e \<Rightarrow> Inl e
      | Inr y \<Rightarrow> (case mapE g xs of Inl e \<Rightarrow> Inl e | Inr ys \<Rightarrow> Inr (y # ys)))"

text \<open>
  \<open>batchFeeds.flat().filter(f => f.post.author.did !== did).map(...)\<close>
\<close>

definition batchPosts :: "string \<Rightarrow> feedViewPost list list \<Rightarrow> error + Post list" where
  "batchPosts d batchFeeds =
     mapE toPost (filter (\<lambda>f. did (pv_author (post f)) \<noteq> d) (concat batchFeeds))"

text \<open>
  The loop \<open>for (let i = 0; i < follows.length; i += batchSize)\<close>. An exception in the
  body leaves the loop: the batches after it are never fetched.
\<close>

function mergeLoop ::
  "agent \<Rightarrow> string \<Rightarrow> nat option \<Rightarrow> nat \<Rightarrow> profileView list \<Rightarrow> nat \<Rightarrow> Post list \<Rightarrow> world \<Rightarrow>
     (error + Post list) \<times> world" where
  "mergeLoop ag d cm ncm follows i allPosts w =
     (if i < length follows then
        (case fetchBatch ag cm ncm (slice follows i (i + batchSize)) w of
           (batchFeeds, w1) \<Rightarrow>
             (case batchPosts d batchFeeds of
                Inl e \<Rightarrow> (Inl e, w1)
              | Inr bp \<Rightarrow> mergeLoop ag d cm ncm follows (i + batchSize) (allPosts @ bp) w1))
      else (Inr allPosts, w))"
  by pat_completeness auto
termination
  by (relation "measure (\<lambda>(ag, d, cm, ncm, follows, i, allPosts, w). length follows - i)")
     (auto simp: batchSize_def)

text \<open>
  \<open>allPosts.sort((a, b) => new Date(b.indexedAt).getTime() - new Date(a.indexedAt).getTime())\<close>.
  Parsing a date string is the runtime's: it is the parameter \<open>getTime\<close>, which gives the
  milliseconds of a valid date and \<open>None\<close> for \<open>NaN\<close> (an invalid date). A difference with
  a \<open>NaN\<close> operand is \<open>NaN\<close>.
\<close>

definition byIndexedAtDesc :: "(string \<Rightarrow> int option) \<Rightarrow> Post \<Rightarrow> Post \<Rightarrow> int option" where
  "byIndexedAtDesc getTime a b =
     (case getTime (indexedAt b) of
        None \<Rightarrow> None
      | Some tb \<Rightarrow> (case getTime (indexedAt a) of None \<Rightarrow> None | Some ta \<Rightarrow> Some (tb - ta)))"

text \<open>
  \<open>Array.prototype.sort\<close> with a comparison function: a comparison that yields \<open>NaN\<close>
  counts as \<open>0\<close>, and the sort is stable. When every \<open>indexedAt\<close> is a valid date the
  comparison function is consistent, and then the result of a stable sort is determined:
  it is what the stable insertion sort below gives. When a comparison yields \<open>NaN\<close> the
  order is the engine's own and this function does not give it; nothing below relies on
  the order of the posts in that case.
\<close>

definition sortCompare :: "('a \<Rightarrow> 'a \<Rightarrow> int option) \<Rightarrow> 'a \<Rightarrow> 'a \<Rightarrow> int" where
  "sortCompare comparefn x y = (case comparefn x y of None \<Rightarrow> 0 | Some v \<Rightarrow> v)"

fun insertBy :: "('a \<Rightarrow> 'a \<Rightarrow> int option) \<Rightarrow> 'a \<Rightarrow> 'a list \<Rightarrow> 'a list" where
  "insertBy comparefn x [] = [x]"
| "insertBy comparefn x (y # ys) =
     (if sortCompare comparefn x y \<le> 0 then x # y # ys
      else y # insertBy comparefn x ys)"

fun arraySort :: "('a \<Rightarrow> 'a \<Rightarrow> int option) \<Rightarrow> 'a list \<Rightarrow> 'a list" where
  "arraySort comparefn [] = []"
| "arraySort comparefn (x # xs) = insertBy comparefn x (arraySort comparefn xs)"

record mergedTimeline =
  posts :: "Post list"
  cursorMap :: nat

definition getMergedTimeline ::
  "agent \<Rightarrow> (string \<Rightarrow> int option) \<Rightarrow> world \<Rightarrow> string \<Rightarrow> nat option \<Rightarrow>
     (error + mergedTimeline) \<times> world" where
  "getMergedTimeline ag getTime w h cm =
     (case resolveHandle ag w h of
        (Inl e, w1) \<Rightarrow> (Inl e, w1)
      | (Inr d, w1) \<Rightarrow>
          (let w2 = emit (GetFollows d 30) w1 in
           case agent_getFollows ag d 30 of
             Inl e \<Rightarrow> (Inl e, w2)
           | Inr fs \<Rightarrow>
               (let follows = filter keepFollow fs;
                    (newCursorMap, w3) = newMap w2
                in case mergeLoop ag d cm newCursorMap follows 0 [] w3 of
                     (Inl e, w4) \<Rightarrow> (Inl e, w4)
                   | (Inr allPosts, w4) \<Rightarrow>
                       (Inr \<lparr>posts = arraySort (byIndexedAtDesc getTime) allPosts,
                             cursorMap = newCursorMap\<rparr>, w4))))"

section \<open>getUserTimeline\<close>

text \<open>\<open>getAuthorFeed(actor, limit = 10)\<close>: one request without a cursor.\<close>

definition getAuthorFeed ::
  "agent \<Rightarrow> world \<Rightarrow> string \<Rightarrow> nat \<Rightarrow> (error + feedViewPost list) \<times> world" where
  "getAuthorFeed ag w actor limit =
     (case agent_getAuthorFeed ag actor limit None of
        Inl e \<Rightarrow> (Inl e, emit (GetAuthorFeed actor limit None) w)
      | Inr res \<Rightarrow> (Inr (feed res), emit (GetAuthorFeed actor limit None) w))"

definition getUserTimeline :: "agent \<Rightarrow> world \<Rightarrow> string \<Rightarrow> (error + Post list) \<times> world" where
  "getUserTimeline ag w actor =
     (case getAuthorFeed ag w actor 20 of
        (Inl e, w1) \<Rightarrow> (Inl e, w1)
      | (Inr fd, w1) \<Rightarrow> (mapE toPost fd, w1))"

section \<open>Notions used to state the properties\<close>

text \<open>
  The answer of the agent to the feed request for account \<open>k\<close>, when the resume tokens
  are looked up in \<open>cur\<close>; the feed that \<open>getMergedTimeline\<close> takes from it (\<open>[]\<close>
  after a failure); and the token it keeps from it (a truthy cursor).
\<close>

definition answer :: "agent \<Rightarrow> (string \<Rightarrow> string option) \<Rightarrow> string \<Rightarrow> error + feedResponse" where
  "answer ag cur k = agent_getAuthorFeed ag k 10 (cur k)"

definition feedAt :: "agent \<Rightarrow> (string \<Rightarrow> string option) \<Rightarrow> string \<Rightarrow> feedViewPost list" where
  "feedAt ag cur k = (case answer ag cur k of Inl e \<Rightarrow> [] | Inr res \<Rightarrow> feed res)"

definition tokenAt :: "agent \<Rightarrow> (string \<Rightarrow> string option) \<Rightarrow> string \<Rightarrow> string option" where
  "tokenAt ag cur k =
     (case answer ag cur k of
        Inl e \<Rightarrow> None
      | Inr res \<Rightarrow>
          (case cursor res of None \<Rightarrow> None | Some c \<Rightarrow> if c \<noteq> [] then Some c else None))"

definition request :: "(string \<Rightarrow> string option) \<Rightarrow> profileView \<Rightarrow> call" where
  "request cur f = GetAuthorFeed (did f) 10 (cur (did f))"

text \<open>The diagnostics for the accounts \<open>fs\<close>: one line per failed request, in the order of \<open>fs\<close>.\<close>

fun errorsOf :: "agent \<Rightarrow> (string \<Rightarrow> string option) \<Rightarrow> profileView list \<Rightarrow> call list" where
  "errorsOf ag cur [] = []"
| "errorsOf ag cur (f # fs) =
     (case answer ag cur (did f) of Inl e \<Rightarrow> [ConsoleError (handle f) e] | Inr res \<Rightarrow> [])
       @ errorsOf ag cur fs"

text \<open>The entries of a \<open>Map\<close> after the tokens of the accounts \<open>fs\<close> have been stored.\<close>

fun storeTokens ::
  "agent \<Rightarrow> (string \<Rightarrow> string option) \<Rightarrow> profileView list \<Rightarrow> (string \<times> string) list \<Rightarrow>
     (string \<times> string) list" where
  "storeTokens ag cur [] al = al"
| "storeTokens ag cur (f # fs) al =
     storeTokens ag cur fs
       (case tokenAt ag cur (did f) of None \<Rightarrow> al | Some c \<Rightarrow> AList.update (did f) c al)"

text \<open>
  The time the feed request for account \<open>k\<close> takes to settle; the accounts of a batch in
  the order in which their requests settle; and what a batch adds to the log: its
  requests in the order of issue, then the diagnostics of the failed ones in the order
  in which they settle.
\<close>

definition settleAt :: "agent \<Rightarrow> (string \<Rightarrow> string option) \<Rightarrow> string \<Rightarrow> nat" where
  "settleAt ag cur k = agent_settleTime ag k 10 (cur k)"

definition settled :: "agent \<Rightarrow> (string \<Rightarrow> string option) \<Rightarrow> profileView list \<Rightarrow> profileView list" where
  "settled ag cur b = sort_key (\<lambda>f. settleAt ag cur (did f)) b"

definition batchLog :: "agent \<Rightarrow> (string \<Rightarrow> string option) \<Rightarrow> profileView list \<Rightarrow> call list" where
  "batchLog ag cur b = map (request cur) b @ errorsOf ag cur (settled ag cur b)"

text \<open>The slices the loop takes from index \<open>i\<close> on, in the order it takes them.\<close>

function batchesFrom :: "'a list \<Rightarrow> nat \<Rightarrow> 'a list list" where
  "batchesFrom xs i =
     (if i < length xs then slice xs i (i + batchSize) # batchesFrom xs (i + batchSize)
      else [])"
  by pat_completeness auto
termination
  by (relation "measure (\<lambda>(xs, i). length xs - i)") (auto simp: batchSize_def)

text \<open>The loop body run over a list of batches, one batch after the other.\<close>

fun runBatches ::
  "agent \<Rightarrow> string \<Rightarrow> nat option \<Rightarrow> nat \<Rightarrow> profileView list list \<Rightarrow> Post list \<Rightarrow> world \<Rightarrow>
     (error + Post list) \<times> world" where
  "runBatches ag d cm ncm [] acc w = (Inr acc, w)"
| "runBatches ag d cm ncm (b # bs) acc w =
     (case fetchBatch ag cm ncm b w of
        (batchFeeds, w1) \<Rightarrow>
          (case batchPosts d batchFeeds of
             Inl e \<Rightarrow> (Inl e, w1)
           | Inr bp \<Rightarrow> runBatches ag d cm ncm bs (acc @ bp) w1))"

text \<open>
  The accounts \<open>fs\<close> in the order in which their requests settle: batch after batch, and
  within a batch by settle time.
\<close>

definition completion :: "agent \<Rightarrow> (string \<Rightarrow> string option) \<Rightarrow> profileView list \<Rightarrow> profileView list" where
  "completion ag cur fs = concat (map (settled ag cur) (batchesFrom fs 0))"

text \<open>An entry passes the self-post filter for root \<open>d\<close>.\<close>

definition notSelf :: "string \<Rightarrow> feedViewPost \<Rightarrow> bool" where
  "notSelf d f = (did (pv_author (post f)) \<noteq> d)"

text \<open>The raw feed entries of the accounts \<open>fs\<close>, account after account.\<close>

definition entriesOf ::
  "agent \<Rightarrow> (string \<Rightarrow> string option) \<Rightarrow> profileView list \<Rightarrow> feedViewPost list" where
  "entriesOf ag cur fs = concat (map (\<lambda>f. feedAt ag cur (did f)) fs)"

text \<open>A caller-supplied cursor map refers to a \<open>Map\<close> that exists.\<close>

definition validRef :: "world \<Rightarrow> nat option \<Rightarrow> bool" where
  "validRef w cm = (case cm of None \<Rightarrow> True | Some r \<Rightarrow> r < length (maps w))"

definition isFetch :: "call \<Rightarrow> bool" where
  "isFetch c = (case c of GetAuthorFeed a n t \<Rightarrow> True | _ \<Rightarrow> False)"

text \<open>
  The indexing time of a post, for posts whose \<open>indexedAt\<close> is a valid date.
\<close>

definition timeOf :: "(string \<Rightarrow> int option) \<Rightarrow> Post \<Rightarrow> int" where
  "timeOf getTime p = (case getTime (indexedAt p) of None \<Rightarrow> 0 | Some t \<Rightarrow> t)"

text \<open>
  The agent that answers like \<open>ag\<close>, except that a failed feed request is answered with
  an empty page without a cursor.
\<close>

definition absorbFailures :: "agent \<Rightarrow> agent" where
  "absorbFailures ag =
     ag\<lparr>agent_getAuthorFeed :=
          (\<lambda>k n c. case agent_getAuthorFeed ag k n c of
                     Inl e \<Rightarrow> Inr \<lparr>feed = [], cursor = None\<rparr>
                   | Inr res \<Rightarrow> Inr res)\<rparr>"

text \<open>
  The collaborator's data format: the reason of a reposted entry in a feed page is tagged
  \<open>app.bsky.feed.defs#reasonRepost\<close> and carries the reposting account in \<open>by\<close>.
\<close>

definition apiRepostTag :: string where
  "apiRepostTag = ''app.bsky.feed.defs#reasonRepost''"

section \<open>A concrete scenario\<close>

text \<open>
  The root account follows alice, bob, carol and dave. Carol is labelled
  \<open>!no-unauthenticated\<close>; bob's feed cannot be fetched; dave's page comes with an empty
  cursor string. Alice's first page holds a post of her own, her repost of a post of the
  root account and her repost of a post of a third account.
\<close>

definition mkProfile :: "string \<Rightarrow> string \<Rightarrow> label list option \<Rightarrow> profileView" where
  "mkProfile d h ls =
     \<lparr>did = d, handle = h, displayName = None, avatar = None, labels = ls\<rparr>"

definition alice :: profileView where
  "alice = mkProfile ''did:plc:alice'' ''alice.example'' None"

definition bob :: profileView where
  "bob = mkProfile ''did:plc:bob'' ''bob.example'' (Some [])"

definition carol :: profileView where
  "carol = mkProfile ''did:plc:carol'' ''carol.example'' (Some [\<lparr>val = ''!no-unauthenticated''\<rparr>])"

definition dave :: profileView where
  "dave = mkProfile ''did:plc:dave'' ''dave.example'' (Some [\<lparr>val = ''porn''\<rparr>])"

definition rootProfile :: profileView where
  "rootProfile = mkProfile ''did:plc:root'' ''root.example'' None"

definition zed :: profileView where
  "zed = mkProfile ''did:plc:zed'' ''zed.example'' None"

definition mkEntry :: "string \<Rightarrow> profileView \<Rightarrow> string \<Rightarrow> reasonView option \<Rightarrow> feedViewPost" where
  "mkEntry u a t r =
     \<lparr>post = \<lparr>pv_uri = u, pv_cid = ''cid'', pv_author = a,
               pv_record = JObj [(''text'', JStr ''hello'')], pv_embed = None,
               pv_indexedAt = t\<rparr>,
      reason = r\<rparr>"

definition repostBy :: "profileView \<Rightarrow> reasonView option" where
  "repostBy a = Some \<lparr>reason_type = repostTag, reason_by = Some a\<rparr>"

definition demoFeed :: "string \<Rightarrow> nat \<Rightarrow> string option \<Rightarrow> error + feedResponse" where
  "demoFeed k n c =
     (if k = ''did:plc:alice'' then
        (if c = None then
           Inr \<lparr>feed = [mkEntry ''at://alice/1'' alice ''2024-01-03T00:00:00.000Z'' None,
                        mkEntry ''at://root/1'' rootProfile ''2024-01-04T00:00:00.000Z'' (repostBy alice),
                        mkEntry ''at://zed/1'' zed ''2024-01-01T00:00:00.000Z'' (repostBy alice)],
                cursor = Some ''cursor-a1''\<rparr>
         else Inr \<lparr>feed = [], cursor = None\<rparr>)
      else if k = ''did:plc:bob'' then Inl (UpstreamError ''timeout'')
      else if k = ''did:plc:carol'' then
        Inr \<lparr>feed = [mkEntry ''at://carol/1'' carol ''2024-01-05T00:00:00.000Z'' None],
             cursor = Some ''cursor-c1''\<rparr>
      else if k = ''did:plc:dave'' then
        Inr \<lparr>feed = [mkEntry ''at://dave/1'' dave ''2024-01-02T00:00:00.000Z'' None],
             cursor = Some []\<rparr>
      else Inl (UpstreamError ''not found''))"

definition demoAgent :: agent where
  "demoAgent =
     \<lparr>agent_resolveHandle =
        (\<lambda>h. if h = ''root.example'' then Inr ''did:plc:root''
              else Inl (UpstreamError ''Unable to resolve handle'')),
      agent_getFollows =
        (\<lambda>a n. if a = ''did:plc:root'' then Inr [alice, bob, carol, dave]
                else Inl (UpstreamError ''not found'')),
      agent_getAuthorFeed = demoFeed,
      agent_settleTime = (\<lambda>k n c. 0)\<rparr>"

text \<open>
  The runtime's date parsing, as far as the scenarios need it: the epoch milliseconds of
  five ISO timestamps; every other string of the scenarios is not a date.
\<close>

definition demoTime :: "string \<Rightarrow> int option" where
  "demoTime s =
     (if s = ''2024-01-01T00:00:00.000Z'' then Some 1704067200000
      else if s = ''2024-01-02T00:00:00.000Z'' then Some 1704153600000
      else if s = ''2024-01-03T00:00:00.000Z'' then Some 1704240000000
      else if s = ''2024-01-04T00:00:00.000Z'' then Some 1704326400000
      else if s = ''2024-01-05T00:00:00.000Z'' then Some 1704412800000
      else None)"

definition world0 :: world where
  "world0 = \<lparr>calls = [], maps = []\<rparr>"

text \<open>The Posts of the scenario.\<close>

definition mkPost :: "string \<Rightarrow> profileView \<Rightarrow> string \<Rightarrow> actorRef option \<Rightarrow> Post" where
  "mkPost u a t r =
     \<lparr>uri = u, cid = ''cid'',
      author = \<lparr>did = did a, handle = handle a, displayName = None, avatar = None\<rparr>,
      precord = JObj [(''text'', JStr ''hello'')], embed = None, indexedAt = t,
      repostedBy = r\<rparr>"

definition aliceRef :: actorRef where
  "aliceRef = \<lparr>did = ''did:plc:alice'', handle = ''alice.example'', displayName = None\<rparr>"

definition demoPosts :: "Post list" where
  "demoPosts =
     [mkPost ''at://alice/1'' alice ''2024-01-03T00:00:00.000Z'' None,
      mkPost ''at://dave/1'' dave ''2024-01-02T00:00:00.000Z'' None,
      mkPost ''at://zed/1'' zed ''2024-01-01T00:00:00.000Z'' (Some aliceRef)]"

definition demoCalls :: "call list" where
  "demoCalls =
     [ResolveHandle ''root.example'',
      GetFollows ''did:plc:root'' 30,
      GetAuthorFeed ''did:plc:alice'' 10 None,
      GetAuthorFeed ''did:plc:bob'' 10 None,
      GetAuthorFeed ''did:plc:dave'' 10 None,
      ConsoleError ''bob.example'' (UpstreamError ''timeout'')]"

definition world1 :: world where
  "world1 = \<lparr>calls = demoCalls, maps = [[(''did:plc:alice'', ''cursor-a1'')]]\<rparr>"

text \<open>
  A second agent: alice's feed holds her repost of a post of zed, tagged the way the
  API tags reposts.
\<close>

definition apiRepostEntry :: feedViewPost where
  "apiRepostEntry =
     mkEntry ''at://zed/1'' zed ''2024-01-01T00:00:00.000Z''
       (Some \<lparr>reason_type = apiRepostTag, reason_by = Some alice\<rparr>)"

definition apiAgent :: agent where
  "apiAgent =
     demoAgent\<lparr>agent_getAuthorFeed :=
       (\<lambda>k n c. if k = ''did:plc:alice'' then Inr \<lparr>feed = [apiRepostEntry], cursor = None\<rparr>
                 else Inl (UpstreamError ''unavailable''))\<rparr>"

text \<open>A third agent: no feed can be fetched at all.\<close>

definition downAgent :: agent where
  "downAgent = demoAgent\<lparr>agent_getAuthorFeed := (\<lambda>k n c. Inl (UpstreamError ''unavailable''))\<rparr>"

text \<open>The world after a second call, made with the cursor map the first call returned.\<close>

definition world2 :: world where
  "world2 =
     \<lparr>calls = demoCalls @
        [ResolveHandle ''root.example'',
         GetFollows ''did:plc:root'' 30,
         GetAuthorFeed ''did:plc:alice'' 10 (Some ''cursor-a1''),
         GetAuthorFeed ''did:plc:bob'' 10 None,
         GetAuthorFeed ''did:plc:dave'' 10 None,
         ConsoleError ''bob.example'' (UpstreamError ''timeout'')],
      maps = [[(''did:plc:alice'', ''cursor-a1'')], []]\<rparr>"

text \<open>
  An agent that is particular about what it is asked: it answers a feed request the way
  the first agent does when the request has limit 10 and carries the cursor that the
  first call returned for the account asked for, and fails on every other feed request.
\<close>

definition pickyAgent :: agent where
  "pickyAgent =
     demoAgent\<lparr>agent_getAuthorFeed :=
       (\<lambda>k n c. if n = 10 \<and> c = map_of [(''did:plc:alice'', ''cursor-a1'')] k
                 then demoFeed k n c
                 else Inl (UpstreamError ''unexpected request''))\<rparr>"

text \<open>
  A fourth agent, for a root account with 23 follows \<open>ma\<close>, ..., \<open>mw\<close>, none of them
  labelled. The feeds of \<open>mb\<close>, \<open>md\<close> (first batch) and \<open>mh\<close> (second batch) cannot
  be fetched, and the request for \<open>mb\<close> settles later than the others; every other feed
  holds one post.
\<close>

definition crowdMember :: "nat \<Rightarrow> profileView" where
  "crowdMember n =
     mkProfile (''did:plc:m'' @ [char_of (97 + n)]) (''m'' @ [char_of (97 + n)]) None"

definition crowd :: "profileView list" where
  "crowd = map crowdMember [0..<23]"

definition crowdAgent :: agent where
  "crowdAgent =
     \<lparr>agent_resolveHandle = (\<lambda>h. Inl (UpstreamError ''Unable to resolve handle'')),
      agent_getFollows = (\<lambda>a n. Inr crowd),
      agent_getAuthorFeed =
        (\<lambda>k n c. if k = ''did:plc:mb'' \<or> k = ''did:plc:md'' \<or> k = ''did:plc:mh''
                  then Inl (UpstreamError ''timeout'')
                  else Inr \<lparr>feed = [mkEntry (''at://'' @ k) (mkProfile k k None)
                                        ''2024-01-01T00:00:00.000Z'' None],
                            cursor = None\<rparr>),
      agent_settleTime = (\<lambda>k n c. if k = ''did:plc:mb'' then 2 else 1)\<rparr>"

section \<open>Properties of resolveHandle\<close>

text \<open>
  Claim C6. An input that starts with \<open>did:\<close> is returned unchanged and the resolution
  collaborator is not called (the world, with its request log, is untouched). Any other
  input is sent to the collaborator exactly once, and the outcome of \<open>resolveHandle\<close> is
  the collaborator's outcome: its identifier on success, its error unchanged on failure.
\<close>

theorem resolveHandle_contract:
  "(startsWith h ''did:'' \<longrightarrow> resolveHandle ag w h = (Inr h, w)) \<and>
   (\<not> startsWith h ''did:'' \<longrightarrow>
      fst (resolveHandle ag w h) = agent_resolveHandle ag h \<and>
      calls (snd (resolveHandle ag w h)) = calls w @ [ResolveHandle h] \<and>
      maps (snd (resolveHandle ag w h)) = maps w)"
  by (simp add: resolveHandle_def emit_def)

theorem resolveHandle_contract_witness:
  "startsWith ''did:plc:root'' ''did:'' \<and>
   resolveHandle demoAgent world0 ''did:plc:root'' = (Inr ''did:plc:root'', world0) \<and>
   \<not> startsWith ''ghost.example'' ''did:'' \<and>
   fst (resolveHandle demoAgent world0 ''ghost.example'') =
     Inl (UpstreamError ''Unable to resolve handle'') \<and>
   calls (snd (resolveHandle demoAgent world0 ''ghost.example'')) =
     [ResolveHandle ''ghost.example'']"
proof -
  have a: "startsWith ''did:plc:root'' ''did:''"
    by (simp add: startsWith_def)
  have b: "\<not> startsWith ''ghost.example'' ''did:''"
    by (simp add: startsWith_def)
  show ?thesis
    using a b resolveHandle_contract [of "''did:plc:root''" demoAgent world0]
      resolveHandle_contract [of "''ghost.example''" demoAgent world0]
    by (simp add: demoAgent_def world0_def)
qed

section \<open>Auxiliary facts about the batch loop\<close>

lemma cursorGet_calls [simp]: "cursorGet (w\<lparr>calls := cs\<rparr>) cm k = cursorGet w cm k"
  by (simp add: cursorGet_def mapGet_def split: option.splits)

lemma issue_eq:
  "issue ag cm fs w =
     (map (\<lambda>f. (f, settleAt ag (cursorGet w cm) (did f), answer ag (cursorGet w cm) (did f))) fs,
      w\<lparr>calls := calls w @ map (request (cursorGet w cm)) fs\<rparr>)"
proof (induction fs arbitrary: w)
  case Nil
  show ?case by simp
next
  case (Cons f fs)
  have e: "cursorGet (emit c w) cm = cursorGet w cm" for c
    by (rule ext) (simp add: emit_def)
  show ?case
    by (simp add: Cons.IH e answer_def settleAt_def request_def Let_def) (simp add: emit_def)
qed

lemma insort_key_map:
  "insort_key k (h x) (map h xs) = map h (insort_key (\<lambda>y. k (h y)) x xs)"
  by (induction xs) simp_all

lemma sort_key_map: "sort_key k (map h xs) = map h (sort_key (\<lambda>y. k (h y)) xs)"
  by (induction xs) (simp_all add: insort_key_map)

lemma runHandlers_eq:
  assumes "ncm < length (maps w)"
  shows "runHandlers ncm (map (\<lambda>f. (f, T f, answer ag cur (did f))) fs) w =
     w\<lparr>calls := calls w @ errorsOf ag cur fs,
       maps := (maps w)[ncm := storeTokens ag cur fs (maps w ! ncm)]\<rparr>"
  using assms
proof (induction fs arbitrary: w)
  case Nil
  show ?case by simp
next
  case (Cons f fs)
  show ?case
  proof (cases "answer ag cur (did f)")
    case (Inl e)
    with Cons.prems show ?thesis
      by (simp add: onSettled_def tokenAt_def Cons.IH emit_def)
  next
    case (Inr res)
    with Cons.prems show ?thesis
      by (simp add: onSettled_def tokenAt_def Cons.IH mapSet_def split: option.splits)
  qed
qed

lemma onSettled_value: "fst (onSettled ncm f (answer ag cur (did f)) w) = feedAt ag cur (did f)"
  by (simp add: onSettled_def feedAt_def split: sum.splits)

lemma settle_eq:
  assumes "ncm < length (maps w)"
  shows "settle ncm (map (\<lambda>f. (f, settleAt ag cur (did f), answer ag cur (did f))) fs) w =
     (map (\<lambda>f. feedAt ag cur (did f)) fs,
      w\<lparr>calls := calls w @ errorsOf ag cur (settled ag cur fs),
        maps := (maps w)[ncm := storeTokens ag cur (settled ag cur fs) (maps w ! ncm)]\<rparr>)"
proof -
  let ?h = "\<lambda>f. (f, settleAt ag cur (did f), answer ag cur (did f))"
  have "sort_key (\<lambda>(f, t, r). t) (map ?h fs) = map ?h (settled ag cur fs)"
    by (simp add: sort_key_map settled_def)
  then show ?thesis
    using assms
    by (simp add: settle_def runHandlers_eq [where T = "\<lambda>f. settleAt ag cur (did f)"]
          onSettled_value comp_def)
qed

lemma fetchBatch_eq:
  assumes "ncm < length (maps w)"
  shows "fetchBatch ag cm ncm b w =
     (map (\<lambda>f. feedAt ag (cursorGet w cm) (did f)) b,
      w\<lparr>calls := calls w @ batchLog ag (cursorGet w cm) b,
        maps := (maps w)[ncm := storeTokens ag (cursorGet w cm)
                   (settled ag (cursorGet w cm) b) (maps w ! ncm)]\<rparr>)"
  using assms by (simp add: fetchBatch_def issue_eq settle_eq batchLog_def)

declare batchesFrom.simps [simp del]

declare mergeLoop.simps [simp del]

lemma mergeLoop_runBatches:
  "mergeLoop ag d cm ncm follows i acc w = runBatches ag d cm ncm (batchesFrom follows i) acc w"
proof (induction ag d cm ncm follows i acc w rule: mergeLoop.induct)
  case (1 ag d cm ncm follows i allPosts w)
  show ?case
  proof (cases "i < length follows")
    case False
    then show ?thesis
      by (simp add: mergeLoop.simps [of _ _ _ _ follows i] batchesFrom.simps [of follows i])
  next
    case True
    obtain bf w1 where fb: "fetchBatch ag cm ncm (slice follows i (i + batchSize)) w = (bf, w1)"
      by (cases "fetchBatch ag cm ncm (slice follows i (i + batchSize)) w")
    show ?thesis
    proof (cases "batchPosts d bf")
      case (Inl e)
      with True fb show ?thesis
        by (simp add: mergeLoop.simps [of _ _ _ _ follows i] batchesFrom.simps [of follows i])
    next
      case (Inr bp)
      with True fb "1.IH" [OF True fb [symmetric] Inr] show ?thesis
        by (simp add: mergeLoop.simps [of _ _ _ _ follows i] batchesFrom.simps [of follows i])
    qed
  qed
qed

lemma mapE_append:
  "mapE g (xs @ ys) =
     (case mapE g xs of
        Inl e \<Rightarrow> Inl e
      | Inr a \<Rightarrow> (case mapE g ys of Inl e \<Rightarrow> Inl e | Inr b \<Rightarrow> Inr (a @ b)))"
  by (induction xs) (auto split: sum.splits)

lemma storeTokens_append:
  "storeTokens ag cur (xs @ ys) al = storeTokens ag cur ys (storeTokens ag cur xs al)"
  by (induction xs arbitrary: al) auto

lemma map_of_storeTokens:
  "map_of (storeTokens ag cur fs al) k =
     (if k \<in> did ` set fs \<and> tokenAt ag cur k \<noteq> None then tokenAt ag cur k else map_of al k)"
  by (induction fs arbitrary: al) (auto simp: update_conv' split: option.splits)

lemma cursorGet_frame:
  assumes "cm \<noteq> Some ncm"
  shows "cursorGet (w\<lparr>calls := cs, maps := (maps w)[ncm := al]\<rparr>) cm = cursorGet w cm"
proof (cases cm)
  case None
  then show ?thesis by (simp add: cursorGet_def fun_eq_iff)
next
  case (Some r)
  with assms have "r \<noteq> ncm" by simp
  then have "(maps w)[ncm := al] ! r = maps w ! r" by simp
  with Some show ?thesis by (simp add: cursorGet_def mapGet_def fun_eq_iff)
qed

lemma runBatches_fst:
  assumes "ncm < length (maps w)" and "cm \<noteq> Some ncm"
  shows "fst (runBatches ag d cm ncm bs acc w) =
     (case mapE toPost (filter (notSelf d)
              (concat (map (\<lambda>f. feedAt ag (cursorGet w cm) (did f)) (concat bs)))) of
        Inl e \<Rightarrow> Inl e
      | Inr ps \<Rightarrow> Inr (acc @ ps))"
  using assms
proof (induction bs arbitrary: acc w)
  case Nil
  show ?case by simp
next
  case (Cons b bs)
  let ?cur = "cursorGet w cm"
  let ?w1 = "w\<lparr>calls := calls w @ batchLog ag ?cur b,
               maps := (maps w)[ncm := storeTokens ag ?cur (settled ag ?cur b) (maps w ! ncm)]\<rparr>"
  have fb: "fetchBatch ag cm ncm b w = (map (\<lambda>f. feedAt ag ?cur (did f)) b, ?w1)"
    using Cons.prems(1) by (rule fetchBatch_eq)
  have len: "ncm < length (maps ?w1)" using Cons.prems(1) by simp
  have cur: "cursorGet ?w1 cm = ?cur" using Cons.prems(2) by (rule cursorGet_frame)
  have bp: "batchPosts d (map (\<lambda>f. feedAt ag ?cur (did f)) b) =
      mapE toPost (filter (notSelf d) (concat (map (\<lambda>f. feedAt ag ?cur (did f)) b)))"
    by (simp add: batchPosts_def notSelf_def [abs_def])
  show ?case
    using Cons.IH [OF len Cons.prems(2)]
    by (simp add: fb bp cur mapE_append split: sum.splits)
qed

lemma runBatches_snd:
  assumes "ncm < length (maps w)" and "cm \<noteq> Some ncm"
  shows "\<exists>k \<le> length bs.
     snd (runBatches ag d cm ncm bs acc w) =
       w\<lparr>calls := calls w @
            concat (map (batchLog ag (cursorGet w cm)) (take k bs)),
         maps := (maps w)[ncm := storeTokens ag (cursorGet w cm)
                    (concat (map (settled ag (cursorGet w cm)) (take k bs))) (maps w ! ncm)]\<rparr>
     \<and> (isl (fst (runBatches ag d cm ncm bs acc w)) \<or> k = length bs)"
  using assms
proof (induction bs arbitrary: acc w)
  case Nil
  show ?case by simp
next
  case (Cons b bs)
  let ?cur = "cursorGet w cm"
  let ?w1 = "w\<lparr>calls := calls w @ batchLog ag ?cur b,
               maps := (maps w)[ncm := storeTokens ag ?cur (settled ag ?cur b) (maps w ! ncm)]\<rparr>"
  have fb: "fetchBatch ag cm ncm b w = (map (\<lambda>f. feedAt ag ?cur (did f)) b, ?w1)"
    using Cons.prems(1) by (rule fetchBatch_eq)
  have len: "ncm < length (maps ?w1)" using Cons.prems(1) by simp
  have cur: "cursorGet ?w1 cm = ?cur" using Cons.prems(2) by (rule cursorGet_frame)
  show ?case
  proof (cases "batchPosts d (map (\<lambda>f. feedAt ag ?cur (did f)) b)")
    case (Inl e)
    have "snd (runBatches ag d cm ncm (b # bs) acc w) = ?w1"
      by (simp add: fb Inl)
    moreover have "isl (fst (runBatches ag d cm ncm (b # bs) acc w))"
      by (simp add: fb Inl)
    ultimately show ?thesis
      by (intro exI [of _ 1]) simp
  next
    case (Inr bp)
    from Cons.IH [OF len Cons.prems(2), of "acc @ bp"] obtain k where k: "k \<le> length bs"
      and s: "snd (runBatches ag d cm ncm bs (acc @ bp) ?w1) =
        ?w1\<lparr>calls := calls ?w1 @
            concat (map (batchLog ag ?cur) (take k bs)),
         maps := (maps ?w1)[ncm := storeTokens ag ?cur
                    (concat (map (settled ag ?cur) (take k bs))) (maps ?w1 ! ncm)]\<rparr>"
      and r: "isl (fst (runBatches ag d cm ncm bs (acc @ bp) ?w1)) \<or> k = length bs"
      unfolding cur by blast
    have "snd (runBatches ag d cm ncm (b # bs) acc w) =
        w\<lparr>calls := calls w @
            concat (map (batchLog ag ?cur) (take (Suc k) (b # bs))),
         maps := (maps w)[ncm := storeTokens ag ?cur
                    (concat (map (settled ag ?cur) (take (Suc k) (b # bs)))) (maps w ! ncm)]\<rparr>"
      using Cons.prems(1) by (simp add: fb Inr s storeTokens_append)
    moreover have "isl (fst (runBatches ag d cm ncm (b # bs) acc w)) \<or> Suc k = length (b # bs)"
      using r by (simp add: fb Inr)
    ultimately show ?thesis
      using k by (intro exI [of _ "Suc k"]) simp
  qed
qed


section \<open>The call as a whole\<close>

lemma concat_batchesFrom: "concat (batchesFrom xs i) = drop i xs"
proof (induction xs i rule: batchesFrom.induct)
  case (1 xs i)
  show ?case
  proof (cases "i < length xs")
    case True
    have "take batchSize (drop i xs) @ drop (i + batchSize) xs = drop i xs"
      by (metis add.commute append_take_drop_id drop_drop)
    with True "1.IH" show ?thesis
      by (simp add: batchesFrom.simps [of xs i] slice_def)
  next
    case False
    then show ?thesis by (simp add: batchesFrom.simps [of xs i])
  qed
qed

lemma cursorGet_fresh:
  assumes "validRef w cm" and "maps w' = maps w @ [al]"
  shows "cursorGet w' cm = cursorGet w cm"
proof (cases cm)
  case None
  then show ?thesis by (simp add: cursorGet_def fun_eq_iff)
next
  case (Some r)
  with assms(1) have "r < length (maps w)" by (simp add: validRef_def)
  then have "maps w' ! r = maps w ! r" by (simp add: assms(2) nth_append)
  with Some show ?thesis by (simp add: cursorGet_def mapGet_def fun_eq_iff)
qed

text \<open>
  The loop starts in the world that \<open>resolveHandle\<close> left, with the follows request
  logged and the new cursor map allocated.
\<close>

lemma resolveHandle_maps: "maps (snd (resolveHandle ag w h)) = maps w"
  by (simp add: resolveHandle_def emit_def)

lemma getMergedTimeline_unfold:
  assumes r: "resolveHandle ag w h = (Inr d, ws)" and f: "agent_getFollows ag d 30 = Inr fs"
  shows "getMergedTimeline ag getTime w h cm =
     (case runBatches ag d cm (length (maps w)) (batchesFrom (filter keepFollow fs) 0) []
             (ws\<lparr>calls := calls ws @ [GetFollows d 30], maps := maps w @ [[]]\<rparr>) of
        (Inl e, w4) \<Rightarrow> (Inl e, w4)
      | (Inr allPosts, w4) \<Rightarrow>
          (Inr \<lparr>posts = arraySort (byIndexedAtDesc getTime) allPosts,
                cursorMap = length (maps w)\<rparr>, w4))"
proof -
  have m: "maps ws = maps w" using resolveHandle_maps [of ag w h] r by simp
  show ?thesis
    by (simp add: getMergedTimeline_def r f newMap_def emit_def m mergeLoop_runBatches Let_def
          split: prod.splits sum.splits)
qed

lemma getMergedTimeline_fst:
  assumes v: "validRef w cm"
    and r: "fst (resolveHandle ag w h) = Inr d" and f: "agent_getFollows ag d 30 = Inr fs"
  shows "fst (getMergedTimeline ag getTime w h cm) =
     (case mapE toPost (filter (notSelf d) (entriesOf ag (cursorGet w cm) (filter keepFollow fs))) of
        Inl e \<Rightarrow> Inl e
      | Inr ps \<Rightarrow>
          Inr \<lparr>posts = arraySort (byIndexedAtDesc getTime) ps, cursorMap = length (maps w)\<rparr>)"
proof -
  obtain ws where rs: "resolveHandle ag w h = (Inr d, ws)"
    using r by (cases "resolveHandle ag w h") simp
  have m: "maps ws = maps w" using resolveHandle_maps [of ag w h] rs by simp
  let ?w3 = "ws\<lparr>calls := calls ws @ [GetFollows d 30], maps := maps w @ [[]]\<rparr>"
  let ?bs = "batchesFrom (filter keepFollow fs) 0"
  have c3: "cursorGet ?w3 cm = cursorGet w cm"
    by (rule cursorGet_fresh [OF v, of _ "[]"]) simp
  have n: "length (maps w) < length (maps ?w3)" by simp
  have ne: "cm \<noteq> Some (length (maps w))" using v by (auto simp: validRef_def)
  obtain res w4 where rb: "runBatches ag d cm (length (maps w)) ?bs [] ?w3 = (res, w4)"
    by (cases "runBatches ag d cm (length (maps w)) ?bs [] ?w3")
  have "fst (runBatches ag d cm (length (maps w)) ?bs [] ?w3) =
      (case mapE toPost (filter (notSelf d)
              (concat (map (\<lambda>f. feedAt ag (cursorGet w cm) (did f)) (concat ?bs)))) of
        Inl e \<Rightarrow> Inl e
      | Inr ps \<Rightarrow> Inr ([] @ ps))"
    using runBatches_fst [OF n ne, where ag = ag and d = d and bs = ?bs and acc = "[]"]
    unfolding c3 .
  then have "res =
      (case mapE toPost (filter (notSelf d) (entriesOf ag (cursorGet w cm) (filter keepFollow fs))) of
        Inl e \<Rightarrow> Inl e
      | Inr ps \<Rightarrow> Inr ps)"
    by (simp add: rb concat_batchesFrom entriesOf_def cong: sum.case_cong)
  then show ?thesis
    by (simp add: getMergedTimeline_unfold [OF rs f] rb split: sum.splits)
qed

lemma getMergedTimeline_snd:
  assumes v: "validRef w cm"
    and r: "resolveHandle ag w h = (Inr d, ws)" and f: "agent_getFollows ag d 30 = Inr fs"
  shows "\<exists>k \<le> length (batchesFrom (filter keepFollow fs) 0).
     snd (getMergedTimeline ag getTime w h cm) =
       \<lparr>calls = calls ws @ GetFollows d 30 #
           concat (map (batchLog ag (cursorGet w cm)) (take k (batchesFrom (filter keepFollow fs) 0))),
        maps = maps w @
           [storeTokens ag (cursorGet w cm)
              (concat (map (settled ag (cursorGet w cm))
                 (take k (batchesFrom (filter keepFollow fs) 0)))) []]\<rparr>
     \<and> (isl (fst (getMergedTimeline ag getTime w h cm)) \<or>
          k = length (batchesFrom (filter keepFollow fs) 0))"
proof -
  have m: "maps ws = maps w" using resolveHandle_maps [of ag w h] r by simp
  let ?w3 = "ws\<lparr>calls := calls ws @ [GetFollows d 30], maps := maps w @ [[]]\<rparr>"
  let ?bs = "batchesFrom (filter keepFollow fs) 0"
  let ?cur = "cursorGet w cm"
  have c3: "cursorGet ?w3 cm = ?cur"
    by (rule cursorGet_fresh [OF v, of _ "[]"]) simp
  have n: "length (maps w) < length (maps ?w3)" by simp
  have ne: "cm \<noteq> Some (length (maps w))" using v by (auto simp: validRef_def)
  from runBatches_snd [OF n ne, where ag = ag and d = d and bs = ?bs and acc = "[]"] obtain k where k: "k \<le> length ?bs"
    and s: "snd (runBatches ag d cm (length (maps w)) ?bs [] ?w3) =
       ?w3\<lparr>calls := calls ?w3 @
            concat (map (batchLog ag ?cur) (take k ?bs)),
         maps := (maps ?w3)[length (maps w) :=
            storeTokens ag ?cur (concat (map (settled ag ?cur) (take k ?bs)))
              (maps ?w3 ! length (maps w))]\<rparr>"
    and i: "isl (fst (runBatches ag d cm (length (maps w)) ?bs [] ?w3)) \<or> k = length ?bs"
    unfolding c3 by blast
  have s': "snd (getMergedTimeline ag getTime w h cm) =
      snd (runBatches ag d cm (length (maps w)) ?bs [] ?w3)"
    by (simp add: getMergedTimeline_unfold [OF r f] split: prod.splits sum.splits)
  have i': "isl (fst (getMergedTimeline ag getTime w h cm)) =
      isl (fst (runBatches ag d cm (length (maps w)) ?bs [] ?w3))"
    by (simp add: getMergedTimeline_unfold [OF r f] split: prod.splits sum.splits)
  have "snd (getMergedTimeline ag getTime w h cm) =
       \<lparr>calls = calls ws @ GetFollows d 30 #
           concat (map (batchLog ag ?cur) (take k ?bs)),
        maps = maps w @ [storeTokens ag ?cur (concat (map (settled ag ?cur) (take k ?bs))) []]\<rparr>"
    unfolding s' s by simp
  with k i i' show ?thesis by blast
qed


section \<open>The sort\<close>

lemma set_insertBy: "set (insertBy c x ys) = insert x (set ys)"
  by (induction ys) auto

lemma set_arraySort: "set (arraySort c xs) = set xs"
  by (induction xs) (auto simp: set_insertBy)

lemma mset_insertBy: "mset (insertBy c x ys) = add_mset x (mset ys)"
  by (induction ys) auto

lemma mset_arraySort: "mset (arraySort c xs) = mset xs"
  by (induction xs) (auto simp: mset_insertBy)

text \<open>
  On posts whose timestamps are valid dates the sort is the stable sort by descending
  indexing time.
\<close>

lemma sortCompare_valid:
  assumes "getTime (indexedAt x) \<noteq> None" and "getTime (indexedAt y) \<noteq> None"
  shows "sortCompare (byIndexedAtDesc getTime) x y \<le> 0 \<longleftrightarrow>
     - timeOf getTime x \<le> - timeOf getTime y"
  using assms by (auto simp: sortCompare_def byIndexedAtDesc_def timeOf_def)

lemma insertBy_insort_key:
  assumes "getTime (indexedAt x) \<noteq> None" and "\<forall>p\<in>set ys. getTime (indexedAt p) \<noteq> None"
  shows "insertBy (byIndexedAtDesc getTime) x ys = insort_key (\<lambda>p. - timeOf getTime p) x ys"
  using assms by (induction ys) (simp_all add: sortCompare_valid)

lemma arraySort_sort_key:
  assumes "\<forall>p\<in>set xs. getTime (indexedAt p) \<noteq> None"
  shows "arraySort (byIndexedAtDesc getTime) xs = sort_key (\<lambda>p. - timeOf getTime p) xs"
  using assms
proof (induction xs)
  case Nil
  show ?case by simp
next
  case (Cons x xs)
  then have "arraySort (byIndexedAtDesc getTime) xs = sort_key (\<lambda>p. - timeOf getTime p) xs"
    by simp
  moreover have "\<forall>p\<in>set (sort_key (\<lambda>p. - timeOf getTime p) xs). getTime (indexedAt p) \<noteq> None"
    using Cons.prems by simp
  ultimately show ?case
    using Cons.prems by (simp add: insertBy_insort_key)
qed

lemma newest_first_arraySort:
  assumes "\<forall>p\<in>set xs. getTime (indexedAt p) \<noteq> None"
  shows "sorted_wrt
     (\<lambda>a b. \<exists>ta tb. getTime (indexedAt a) = Some ta \<and> getTime (indexedAt b) = Some tb \<and> tb \<le> ta)
     (arraySort (byIndexedAtDesc getTime) xs)"
proof -
  let ?f = "\<lambda>p. - timeOf getTime p"
  let ?ys = "sort_key ?f xs"
  have "sorted (map ?f ?ys)" by (rule sorted_sort_key)
  then have s: "sorted_wrt (\<lambda>a b. ?f a \<le> ?f b) ?ys" by (simp add: sorted_map)
  have "sorted_wrt
     (\<lambda>a b. \<exists>ta tb. getTime (indexedAt a) = Some ta \<and> getTime (indexedAt b) = Some tb \<and> tb \<le> ta)
     ?ys"
  proof (rule sorted_wrt_mono_rel [OF _ s])
    fix a b assume a: "a \<in> set ?ys" and b: "b \<in> set ?ys" and le: "?f a \<le> ?f b"
    from a assms have "getTime (indexedAt a) \<noteq> None" by simp
    then obtain ta where "getTime (indexedAt a) = Some ta" by blast
    moreover from b assms have "getTime (indexedAt b) \<noteq> None" by simp
    then obtain tb where "getTime (indexedAt b) = Some tb" by blast
    ultimately show "\<exists>ta tb. getTime (indexedAt a) = Some ta \<and> getTime (indexedAt b) = Some tb \<and> tb \<le> ta"
      using le by (simp add: timeOf_def)
  qed
  then show ?thesis by (simp add: arraySort_sort_key [OF assms])
qed

lemma demo_run:
  "getMergedTimeline demoAgent demoTime world0 ''root.example'' None =
     (Inr \<lparr>posts = demoPosts, cursorMap = 0\<rparr>, world1)"
  by code_simp

section \<open>The projection\<close>

lemma mapE_Inr:
  "mapE g xs = Inr ys \<Longrightarrow> list_all2 (\<lambda>x y. g x = Inr y) xs ys"
proof (induction xs arbitrary: ys)
  case Nil
  then show ?case by simp
next
  case (Cons x xs)
  then show ?case by (auto split: sum.splits)
qed

lemma mapE_Inr_set:
  assumes "mapE g xs = Inr ys" and "y \<in> set ys"
  shows "\<exists>x\<in>set xs. g x = Inr y"
  using assms
proof (induction xs arbitrary: ys)
  case Nil
  then show ?case by simp
next
  case (Cons x xs)
  then show ?case by (auto split: sum.splits)
qed

lemma mapE_Inr_set':
  assumes "mapE g xs = Inr ys" and "x \<in> set xs"
  shows "\<exists>y\<in>set ys. g x = Inr y"
  using assms
proof (induction xs arbitrary: ys)
  case Nil
  then show ?case by simp
next
  case (Cons a xs)
  then show ?case by (auto split: sum.splits)
qed

lemma toPost_author:
  "toPost f = Inr p \<Longrightarrow> did (author p) = did (pv_author (post f))"
  by (auto simp: toPost_def Let_def split: if_splits option.splits)

lemma batchPosts_notSelf:
  assumes "batchPosts d bf = Inr bp" and "p \<in> set bp"
  shows "did (author p) \<noteq> d"
proof -
  from mapE_Inr_set [OF assms [unfolded batchPosts_def]]
  obtain f where "did (pv_author (post f)) \<noteq> d" and "toPost f = Inr p" by auto
  then show ?thesis by (simp add: toPost_author)
qed

lemma runBatches_notSelf:
  assumes "runBatches ag d cm ncm bs acc w = (Inr allPosts, w')"
    and "\<forall>p\<in>set acc. did (author p) \<noteq> d"
  shows "\<forall>p\<in>set allPosts. did (author p) \<noteq> d"
  using assms
proof (induction bs arbitrary: acc w)
  case Nil
  then show ?case by simp
next
  case (Cons b bs)
  obtain bf w1 where fb: "fetchBatch ag cm ncm b w = (bf, w1)"
    by (cases "fetchBatch ag cm ncm b w")
  show ?case
  proof (cases "batchPosts d bf")
    case (Inl e)
    with Cons.prems(1) fb show ?thesis by simp
  next
    case (Inr bp)
    with Cons.prems(1) fb have run: "runBatches ag d cm ncm bs (acc @ bp) w1 = (Inr allPosts, w')"
      by simp
    have "\<forall>p\<in>set (acc @ bp). did (author p) \<noteq> d"
      using Cons.prems(2) batchPosts_notSelf [OF Inr] by auto
    with Cons.IH [OF run] show ?thesis by blast
  qed
qed

text \<open>
  Claim C2. No post returned by \<open>getMergedTimeline\<close> has the resolved root identifier
  as its author's \<open>did\<close>.
\<close>

theorem getMergedTimeline_excludes_root:
  assumes "getMergedTimeline ag getTime w h cm = (Inr res, w')"
    and "fst (resolveHandle ag w h) = Inr d"
  shows "\<forall>p\<in>set (posts res). did (author p) \<noteq> d"
proof -
  obtain ws where rs: "resolveHandle ag w h = (Inr d, ws)"
    using assms(2) by (cases "resolveHandle ag w h") simp
  from assms(1) obtain fs where f: "agent_getFollows ag d 30 = Inr fs"
    by (cases "agent_getFollows ag d 30") (auto simp: getMergedTimeline_def rs Let_def)
  let ?run = "runBatches ag d cm (length (maps w)) (batchesFrom (filter keepFollow fs) 0) []
      (ws\<lparr>calls := calls ws @ [GetFollows d 30], maps := maps w @ [[]]\<rparr>)"
  from assms(1) obtain allPosts where run: "?run = (Inr allPosts, w')"
    and p: "posts res = arraySort (byIndexedAtDesc getTime) allPosts"
    unfolding getMergedTimeline_unfold [OF rs f]
    by (auto split: prod.splits sum.splits)
  from runBatches_notSelf [OF run] have "\<forall>p\<in>set allPosts. did (author p) \<noteq> d" by simp
  then show ?thesis by (simp add: p set_arraySort)
qed

lemma demo_root: "fst (resolveHandle demoAgent world0 ''root.example'') = Inr ''did:plc:root''"
  by (simp add: resolveHandle_def startsWith_def demoAgent_def)

theorem getMergedTimeline_excludes_root_witness:
  "list_all (\<lambda>p. did (author p) \<noteq> ''did:plc:root'') demoPosts"
  using getMergedTimeline_excludes_root [OF demo_run demo_root] by (simp add: list_all_iff)

lemma getMergedTimeline_Inr_inputs':
  assumes "getMergedTimeline ag getTime w h cm = (Inr mt, w')"
  shows "\<exists>d ws fs. resolveHandle ag w h = (Inr d, ws) \<and> agent_getFollows ag d 30 = Inr fs"
  using assms
  by (auto simp: getMergedTimeline_def Let_def split: prod.splits sum.splits)

section \<open>The order of the merged timeline\<close>

lemma fetchBatch_fst:
  "fst (fetchBatch ag cm ncm b w) = map (\<lambda>f. feedAt ag (cursorGet w cm) (did f)) b"
  by (simp add: fetchBatch_def issue_eq settle_def onSettled_value comp_def)

lemma feedAt_page:
  assumes "e \<in> set (feedAt ag cur k)"
  shows "\<exists>c page. agent_getAuthorFeed ag k 10 c = Inr page \<and> e \<in> set (feed page)"
proof (cases "agent_getAuthorFeed ag k 10 (cur k)")
  case (Inl err)
  with assms show ?thesis by (simp add: feedAt_def answer_def)
next
  case (Inr page)
  with assms have "e \<in> set (feed page)" by (simp add: feedAt_def answer_def)
  with Inr show ?thesis by blast
qed

lemma toPost_indexedAt: "toPost f = Inr p \<Longrightarrow> indexedAt p = pv_indexedAt (post f)"
  by (auto simp: toPost_def Let_def split: if_splits option.splits)

lemma batchPosts_from_pages:
  assumes "batchPosts d (fst (fetchBatch ag cm ncm b w)) = Inr bp" and "p \<in> set bp"
  shows "\<exists>e k c page. agent_getAuthorFeed ag k 10 c = Inr page \<and> e \<in> set (feed page) \<and>
     indexedAt p = pv_indexedAt (post e)"
proof -
  from mapE_Inr_set [OF assms(1) [unfolded batchPosts_def] assms(2)] obtain e
    where e: "e \<in> set (concat (fst (fetchBatch ag cm ncm b w)))" and t: "toPost e = Inr p"
    by auto
  from e obtain f :: profileView where "e \<in> set (feedAt ag (cursorGet w cm) (did f))"
    by (auto simp: fetchBatch_fst)
  from feedAt_page [OF this] obtain c page
    where "agent_getAuthorFeed ag (did f) 10 c = Inr page" and "e \<in> set (feed page)"
    by blast
  with toPost_indexedAt [OF t] show ?thesis by blast
qed

lemma runBatches_from_pages:
  assumes "runBatches ag d cm ncm bs acc w = (Inr allPosts, w')" and "p \<in> set allPosts"
  shows "p \<in> set acc \<or>
     (\<exists>e k c page. agent_getAuthorFeed ag k 10 c = Inr page \<and> e \<in> set (feed page) \<and>
        indexedAt p = pv_indexedAt (post e))"
  using assms
proof (induction bs arbitrary: acc w)
  case Nil
  then show ?case by simp
next
  case (Cons b bs)
  obtain bf w1 where fb: "fetchBatch ag cm ncm b w = (bf, w1)"
    by (cases "fetchBatch ag cm ncm b w")
  then have bf: "bf = fst (fetchBatch ag cm ncm b w)" by simp
  show ?case
  proof (cases "batchPosts d bf")
    case (Inl e)
    with Cons.prems(1) fb show ?thesis by simp
  next
    case (Inr bp)
    with Cons.prems(1) fb have run: "runBatches ag d cm ncm bs (acc @ bp) w1 = (Inr allPosts, w')"
      by simp
    from Cons.IH [OF run Cons.prems(2)] batchPosts_from_pages [OF Inr [unfolded bf]]
    show ?thesis by auto
  qed
qed

text \<open>
  Claim C1. A page that the agent delivers carries, for each entry, the indexing
  timestamp of its post: an \<open>indexedAt\<close> that is a valid date. Then, whatever the
  handle and the cursor map, the posts that \<open>getMergedTimeline\<close> returns are ordered by
  indexing time, never an earlier post before a later one.
\<close>

theorem getMergedTimeline_sorted_by_indexedAt:
  assumes "getMergedTimeline ag getTime w h cm = (Inr res, w')"
    and "\<forall>k c page. agent_getAuthorFeed ag k 10 c = Inr page \<longrightarrow>
           (\<forall>e\<in>set (feed page). getTime (pv_indexedAt (post e)) \<noteq> None)"
  shows "sorted_wrt
     (\<lambda>a b. \<exists>ta tb. getTime (indexedAt a) = Some ta \<and> getTime (indexedAt b) = Some tb \<and> tb \<le> ta)
     (posts res)"
proof -
  from getMergedTimeline_Inr_inputs' [OF assms(1)] obtain d ws fs
    where rs: "resolveHandle ag w h = (Inr d, ws)" and f: "agent_getFollows ag d 30 = Inr fs"
    by blast
  let ?run = "runBatches ag d cm (length (maps w)) (batchesFrom (filter keepFollow fs) 0) []
      (ws\<lparr>calls := calls ws @ [GetFollows d 30], maps := maps w @ [[]]\<rparr>)"
  from assms(1) obtain allPosts where run: "?run = (Inr allPosts, w')"
    and p: "posts res = arraySort (byIndexedAtDesc getTime) allPosts"
    unfolding getMergedTimeline_unfold [OF rs f]
    by (auto split: prod.splits sum.splits)
  have "\<forall>p\<in>set allPosts. getTime (indexedAt p) \<noteq> None"
  proof
    fix q assume "q \<in> set allPosts"
    from runBatches_from_pages [OF run this] obtain e k c page
      where "agent_getAuthorFeed ag k 10 c = Inr page" and "e \<in> set (feed page)"
        and "indexedAt q = pv_indexedAt (post e)"
      by auto
    with assms(2) show "getTime (indexedAt q) \<noteq> None" by auto
  qed
  then show ?thesis
    unfolding p by (rule newest_first_arraySort)
qed

lemma demo_timestamped:
  "\<forall>k c page. agent_getAuthorFeed demoAgent k 10 c = Inr page \<longrightarrow>
     (\<forall>e\<in>set (feed page). demoTime (pv_indexedAt (post e)) \<noteq> None)"
  by (auto simp: demoAgent_def demoFeed_def mkEntry_def demoTime_def split: if_splits)

theorem getMergedTimeline_sorted_by_indexedAt_witness:
  "getMergedTimeline demoAgent demoTime world0 ''root.example'' None =
     (Inr \<lparr>posts = demoPosts, cursorMap = 0\<rparr>, world1) \<and>
   sorted_wrt
     (\<lambda>a b. \<exists>ta tb. demoTime (indexedAt a) = Some ta \<and> demoTime (indexedAt b) = Some tb \<and> tb \<le> ta)
     demoPosts \<and>
   map (\<lambda>p. demoTime (indexedAt p)) demoPosts =
     [Some 1704240000000, Some 1704153600000, Some 1704067200000]"
proof -
  have "map (\<lambda>p. demoTime (indexedAt p)) demoPosts =
     [Some 1704240000000, Some 1704153600000, Some 1704067200000]"
    by (simp add: demoPosts_def mkPost_def demoTime_def)
  with getMergedTimeline_sorted_by_indexedAt [OF demo_run demo_timestamped] demo_run
  show ?thesis
    by simp
qed

section \<open>The outcome of a successful call\<close>

lemma getMergedTimeline_Inr_inputs:
  assumes "getMergedTimeline ag getTime w h cm = (Inr mt, w')"
  shows "\<exists>d fs. fst (resolveHandle ag w h) = Inr d \<and> agent_getFollows ag d 30 = Inr fs"
  using assms
  by (auto simp: getMergedTimeline_def Let_def split: prod.splits sum.splits)

lemma getMergedTimeline_success:
  assumes v: "validRef w cm"
    and run: "getMergedTimeline ag getTime w h cm = (Inr mt, w')"
    and r: "fst (resolveHandle ag w h) = Inr d" and f: "agent_getFollows ag d 30 = Inr fs"
  shows "\<exists>ps. mapE toPost (filter (notSelf d) (entriesOf ag (cursorGet w cm) (filter keepFollow fs)))
            = Inr ps \<and>
          posts mt = arraySort (byIndexedAtDesc getTime) ps \<and>
          cursorMap mt = length (maps w)"
proof -
  have "fst (getMergedTimeline ag getTime w h cm) = Inr mt" by (simp add: run)
  then show ?thesis
    unfolding getMergedTimeline_fst [OF v r f, of getTime]
    by (auto split: sum.splits)
qed

text \<open>
  Claim C9. The API tags the reason of a reposted entry
  \<open>app.bsky.feed.defs#reasonRepost\<close> and names the reposting account in its member
  \<open>by\<close>. The projection reads that member \<open>by\<close>, but it compares the tag with
  \<open>app.bsky.feed.defs#skeletonReasonRepost\<close>: for alice's repost of zed's post, tagged
  as the API tags it, \<open>repostedBy\<close> stays absent, in the projection itself and in what
  \<open>getUserTimeline\<close> and \<open>getMergedTimeline\<close> return.
\<close>

theorem repostedBy_absent_for_api_repost:
  "reason apiRepostEntry =
     Some \<lparr>reason_type = ''app.bsky.feed.defs#reasonRepost'', reason_by = Some alice\<rparr> \<and>
   toPost apiRepostEntry =
     Inr (mkPost ''at://zed/1'' zed ''2024-01-01T00:00:00.000Z'' None) \<and>
   fst (getUserTimeline apiAgent world0 ''did:plc:alice'') =
     Inr [mkPost ''at://zed/1'' zed ''2024-01-01T00:00:00.000Z'' None] \<and>
   fst (getMergedTimeline apiAgent demoTime world0 ''root.example'' None) =
     Inr \<lparr>posts = [mkPost ''at://zed/1'' zed ''2024-01-01T00:00:00.000Z'' None],
          cursorMap = 0\<rparr>"
  by code_simp

lemma demo_follows:
  "agent_getFollows demoAgent ''did:plc:root'' 30 = Inr [alice, bob, carol, dave]"
  by (simp add: demoAgent_def)

lemma demo_valid: "validRef world0 None"
  by (simp add: validRef_def)

text \<open>
  Claim C10. The self-post filter looks at the author of the underlying post only, never
  at the reason. Of the entries fetched from the kept follows, exactly those whose post
  is not authored by the root account are projected, each once (the returned posts are
  a permutation of their projections): an entry whose post the root account authored
  has no Post in the result, whoever reposted it, and every other entry has its Post in
  the result, a repost of a third account's post included.
\<close>

theorem self_filter_keys_on_post_author:
  assumes "validRef w cm"
    and "getMergedTimeline ag getTime w h cm = (Inr mt, w')"
    and "fst (resolveHandle ag w h) = Inr d"
    and "agent_getFollows ag d 30 = Inr fs"
  shows "(\<exists>ps. mapE toPost
            (filter (\<lambda>f. did (pv_author (post f)) \<noteq> d)
               (entriesOf ag (cursorGet w cm) (filter keepFollow fs))) = Inr ps \<and>
          mset (posts mt) = mset ps) \<and>
     (\<forall>f\<in>set (entriesOf ag (cursorGet w cm) (filter keepFollow fs)).
        (did (pv_author (post f)) = d \<longrightarrow> (\<forall>p\<in>set (posts mt). toPost f \<noteq> Inr p)) \<and>
        (did (pv_author (post f)) \<noteq> d \<longrightarrow> (\<exists>p\<in>set (posts mt). toPost f = Inr p)))"
proof -
  let ?es = "entriesOf ag (cursorGet w cm) (filter keepFollow fs)"
  from getMergedTimeline_success [OF assms] obtain ps
    where m: "mapE toPost (filter (notSelf d) ?es) = Inr ps"
      and s: "posts mt = arraySort (byIndexedAtDesc getTime) ps"
    by blast
  have n: "notSelf d = (\<lambda>f. did (pv_author (post f)) \<noteq> d)"
    by (simp add: notSelf_def fun_eq_iff)
  have first: "\<exists>ps. mapE toPost (filter (\<lambda>f. did (pv_author (post f)) \<noteq> d) ?es) = Inr ps \<and>
      mset (posts mt) = mset ps"
    using m s by (auto simp: n mset_arraySort)
  have second: "\<forall>f\<in>set ?es.
      (did (pv_author (post f)) = d \<longrightarrow> (\<forall>p\<in>set (posts mt). toPost f \<noteq> Inr p)) \<and>
      (did (pv_author (post f)) \<noteq> d \<longrightarrow> (\<exists>p\<in>set (posts mt). toPost f = Inr p))"
  proof (intro ballI conjI impI)
    fix f :: feedViewPost and p
    assume "did (pv_author (post f)) = d" and "p \<in> set (posts mt)"
    then have p: "p \<in> set ps" by (simp add: s set_arraySort)
    from mapE_Inr_set [OF m p] obtain g where "notSelf d g" and "toPost g = Inr p" by auto
    then have "did (author p) \<noteq> d" by (simp add: toPost_author notSelf_def)
    with \<open>did (pv_author (post f)) = d\<close> show "toPost f \<noteq> Inr p"
      using toPost_author by blast
  next
    fix f :: feedViewPost
    assume "f \<in> set ?es" and "did (pv_author (post f)) \<noteq> d"
    then have "f \<in> set (filter (notSelf d) ?es)" by (simp add: notSelf_def)
    from mapE_Inr_set' [OF m this] show "\<exists>p\<in>set (posts mt). toPost f = Inr p"
      by (simp add: s set_arraySort)
  qed
  from first second show ?thesis by blast
qed

theorem self_filter_keys_on_post_author_witness:
  "isRepost (mkEntry ''at://root/1'' rootProfile ''2024-01-04T00:00:00.000Z'' (repostBy alice)) \<and>
   list_all
     (\<lambda>p. toPost (mkEntry ''at://root/1'' rootProfile ''2024-01-04T00:00:00.000Z'' (repostBy alice))
        \<noteq> Inr p) demoPosts \<and>
   isRepost (mkEntry ''at://zed/1'' zed ''2024-01-01T00:00:00.000Z'' (repostBy alice)) \<and>
   (\<exists>p\<in>set demoPosts.
      toPost (mkEntry ''at://zed/1'' zed ''2024-01-01T00:00:00.000Z'' (repostBy alice)) = Inr p)"
proof -
  let ?r = "mkEntry ''at://root/1'' rootProfile ''2024-01-04T00:00:00.000Z'' (repostBy alice)"
  let ?z = "mkEntry ''at://zed/1'' zed ''2024-01-01T00:00:00.000Z'' (repostBy alice)"
  let ?es = "entriesOf demoAgent (cursorGet world0 None) (filter keepFollow [alice, bob, carol, dave])"
  have es: "?es =
      [mkEntry ''at://alice/1'' alice ''2024-01-03T00:00:00.000Z'' None, ?r, ?z,
       mkEntry ''at://dave/1'' dave ''2024-01-02T00:00:00.000Z'' None]"
    by code_simp
  have r: "?r \<in> set ?es" and z: "?z \<in> set ?es"
    unfolding es by simp_all
  have ra: "did (pv_author (post ?r)) = ''did:plc:root''"
    by (simp add: mkEntry_def rootProfile_def mkProfile_def)
  have za: "did (pv_author (post ?z)) \<noteq> ''did:plc:root''"
    by (simp add: mkEntry_def zed_def mkProfile_def)
  have i: "isRepost ?r" "isRepost ?z"
    by (simp_all add: isRepost_def mkEntry_def repostBy_def)
  note T = self_filter_keys_on_post_author [OF demo_valid demo_run demo_root demo_follows]
  from T r ra have "\<forall>p\<in>set (posts \<lparr>posts = demoPosts, cursorMap = 0\<rparr>). toPost ?r \<noteq> Inr p"
    by blast
  moreover from T z za have "\<exists>p\<in>set (posts \<lparr>posts = demoPosts, cursorMap = 0\<rparr>). toPost ?z = Inr p"
    by blast
  ultimately show ?thesis using i by (simp add: list_all_iff)
qed


section \<open>The world after a successful call\<close>

lemma set_settled [simp]: "set (settled ag cur b) = set b"
  by (simp add: settled_def)

lemma set_completion [simp]: "set (completion ag cur fs) = set fs"
proof -
  have "set (concat (map (settled ag cur) bs)) = set (concat bs)" for bs
    by (induction bs) simp_all
  then have "set (completion ag cur fs) = set (concat (batchesFrom fs 0))"
    by (simp only: completion_def)
  then show ?thesis by (simp only: concat_batchesFrom drop_0)
qed

lemma getMergedTimeline_snd_success:
  assumes v: "validRef w cm"
    and run: "getMergedTimeline ag getTime w h cm = (Inr mt, w')"
    and r: "resolveHandle ag w h = (Inr d, ws)" and f: "agent_getFollows ag d 30 = Inr fs"
  shows "w' =
       \<lparr>calls = calls ws @ GetFollows d 30 #
           concat (map (batchLog ag (cursorGet w cm)) (batchesFrom (filter keepFollow fs) 0)),
        maps = maps w @
           [storeTokens ag (cursorGet w cm)
              (completion ag (cursorGet w cm) (filter keepFollow fs)) []]\<rparr>"
proof -
  let ?bs = "batchesFrom (filter keepFollow fs) 0"
  from getMergedTimeline_snd [OF v r f, of getTime] obtain k
    where s: "snd (getMergedTimeline ag getTime w h cm) =
       \<lparr>calls = calls ws @ GetFollows d 30 #
           concat (map (batchLog ag (cursorGet w cm)) (take k ?bs)),
        maps = maps w @
           [storeTokens ag (cursorGet w cm)
              (concat (map (settled ag (cursorGet w cm)) (take k ?bs))) []]\<rparr>"
      and i: "isl (fst (getMergedTimeline ag getTime w h cm)) \<or> k = length ?bs"
    by blast
  from i have k: "k = length ?bs" by (simp add: run)
  from s show ?thesis by (simp add: run k completion_def)
qed

text \<open>What the returned cursor map holds under a key, after a successful call.\<close>

lemma getMergedTimeline_lookup_success:
  assumes v: "validRef w cm"
    and run: "getMergedTimeline ag getTime w h cm = (Inr mt, w')"
    and r: "resolveHandle ag w h = (Inr d, ws)" and f: "agent_getFollows ag d 30 = Inr fs"
  shows "map_of (maps w' ! length (maps w)) k =
     (if k \<in> did ` set (filter keepFollow fs) \<and> tokenAt ag (cursorGet w cm) k \<noteq> None
      then tokenAt ag (cursorGet w cm) k else None)"
  using getMergedTimeline_snd_success [OF v run r f, THEN arg_cong [where f = maps]]
  by (simp add: map_of_storeTokens)

lemma storeTokens_none:
  "\<forall>f\<in>set fs. tokenAt ag cur (did f) = None \<Longrightarrow> storeTokens ag cur fs al = al"
  by (induction fs arbitrary: al) auto

lemma answer_absorb:
  "answer (absorbFailures ag) cur k =
     (case answer ag cur k of Inl e \<Rightarrow> Inr \<lparr>feed = [], cursor = None\<rparr> | Inr res \<Rightarrow> Inr res)"
  by (simp add: answer_def absorbFailures_def)

lemma feedAt_absorb: "feedAt (absorbFailures ag) cur k = feedAt ag cur k"
  by (simp add: feedAt_def answer_absorb split: sum.splits)

lemma tokenAt_absorb: "tokenAt (absorbFailures ag) cur k = tokenAt ag cur k"
  by (simp add: tokenAt_def answer_absorb split: sum.splits)

lemma entriesOf_absorb: "entriesOf (absorbFailures ag) cur fs = entriesOf ag cur fs"
  by (simp add: entriesOf_def feedAt_absorb)

lemma resolveHandle_absorb: "resolveHandle (absorbFailures ag) w h = resolveHandle ag w h"
  by (simp add: resolveHandle_def absorbFailures_def)

lemma getFollows_absorb: "agent_getFollows (absorbFailures ag) = agent_getFollows ag"
  by (simp add: absorbFailures_def)

lemma getMergedTimeline_fst_absorb:
  assumes v: "validRef w cm"
  shows "fst (getMergedTimeline (absorbFailures ag) getTime w h cm) =
         fst (getMergedTimeline ag getTime w h cm)"
proof (cases "fst (resolveHandle ag w h)")
  case (Inl e)
  then show ?thesis
    by (auto simp: getMergedTimeline_def resolveHandle_absorb split: prod.splits sum.splits)
next
  case (Inr d)
  note r = this
  show ?thesis
  proof (cases "agent_getFollows ag d 30")
    case (Inl e)
    with r show ?thesis
      by (auto simp: getMergedTimeline_def resolveHandle_absorb getFollows_absorb Let_def
            split: prod.splits sum.splits)
  next
    case (Inr fs)
    have r': "fst (resolveHandle (absorbFailures ag) w h) = Inr d"
      by (simp add: resolveHandle_absorb r)
    have f': "agent_getFollows (absorbFailures ag) d 30 = Inr fs"
      by (simp add: getFollows_absorb Inr)
    show ?thesis
      by (simp add: getMergedTimeline_fst [OF v r Inr] getMergedTimeline_fst [OF v r' f']
            entriesOf_absorb)
  qed
qed


lemma completion_absorb: "completion (absorbFailures ag) cur fs = completion ag cur fs"
  by (simp add: completion_def settled_def [abs_def] settleAt_def [abs_def] absorbFailures_def)

lemma storeTokens_absorb:
  "storeTokens (absorbFailures ag) cur fs al = storeTokens ag cur fs al"
  by (induction fs arbitrary: al) (simp_all add: tokenAt_absorb)

lemma tokenAt_failed: "isl (answer ag cur k) \<Longrightarrow> tokenAt ag cur k = None"
  by (cases "answer ag cur k") (simp_all add: tokenAt_def)

lemma feedAt_failed: "isl (answer ag cur k) \<Longrightarrow> feedAt ag cur k = []"
  by (cases "answer ag cur k") (simp_all add: feedAt_def)

text \<open>
  Claim C3. A failed feed request is absorbed: the outcome of \<open>getMergedTimeline\<close> is
  the outcome it has with the agent that answers every failed feed request with an empty
  page, and after a successful call the \<open>Map\<close> objects are the same too. When the root
  is resolved, the follows are listed and the feed request of every kept follow fails,
  the call succeeds with no posts and an empty cursor map. After a successful call the
  returned cursor map has no entry for an account whose feed request failed.
\<close>

theorem fetch_failures_absorbed:
  assumes "validRef w cm"
  shows "fst (getMergedTimeline ag getTime w h cm) =
           fst (getMergedTimeline (absorbFailures ag) getTime w h cm) \<and>
     (getMergedTimeline ag getTime w h cm = (Inr mt, w') \<longrightarrow>
        maps (snd (getMergedTimeline (absorbFailures ag) getTime w h cm)) = maps w') \<and>
     (fst (resolveHandle ag w h) = Inr d \<and> agent_getFollows ag d 30 = Inr fs \<and>
      (\<forall>f\<in>set (filter keepFollow fs). isl (answer ag (cursorGet w cm) (did f))) \<longrightarrow>
        fst (getMergedTimeline ag getTime w h cm) =
          Inr \<lparr>posts = [], cursorMap = length (maps w)\<rparr> \<and>
        maps (snd (getMergedTimeline ag getTime w h cm)) = maps w @ [[]]) \<and>
     (getMergedTimeline ag getTime w h cm = (Inr mt, w') \<and> isl (answer ag (cursorGet w cm) k) \<longrightarrow>
        mapGet w' (cursorMap mt) k = None)"
proof -
  have A: "fst (getMergedTimeline ag getTime w h cm) =
      fst (getMergedTimeline (absorbFailures ag) getTime w h cm)"
    by (simp add: getMergedTimeline_fst_absorb [OF assms])
  have B: "getMergedTimeline ag getTime w h cm = (Inr mt, w') \<longrightarrow>
      maps (snd (getMergedTimeline (absorbFailures ag) getTime w h cm)) = maps w'"
  proof
    assume run: "getMergedTimeline ag getTime w h cm = (Inr mt, w')"
    from getMergedTimeline_Inr_inputs [OF run] obtain d' fs' ws
      where r: "resolveHandle ag w h = (Inr d', ws)" and f: "agent_getFollows ag d' 30 = Inr fs'"
      by (cases "resolveHandle ag w h") auto
    let ?run' = "getMergedTimeline (absorbFailures ag) getTime w h cm"
    have "fst ?run' = Inr mt"
      by (simp add: getMergedTimeline_fst_absorb [OF assms] run)
    then have run': "?run' = (Inr mt, snd ?run')"
      by (cases ?run') simp
    have r': "resolveHandle (absorbFailures ag) w h = (Inr d', ws)"
      by (simp add: resolveHandle_absorb r)
    have f': "agent_getFollows (absorbFailures ag) d' 30 = Inr fs'"
      by (simp add: getFollows_absorb f)
    have "maps (snd ?run') =
        maps w @ [storeTokens (absorbFailures ag) (cursorGet w cm)
          (completion (absorbFailures ag) (cursorGet w cm) (filter keepFollow fs')) []]"
      using getMergedTimeline_snd_success [OF assms run' r' f', THEN arg_cong [where f = maps]]
      by simp
    moreover have "maps w' = maps w @ [storeTokens ag (cursorGet w cm)
        (completion ag (cursorGet w cm) (filter keepFollow fs')) []]"
      using getMergedTimeline_snd_success [OF assms run r f] by simp
    ultimately show "maps (snd ?run') = maps w'"
      by (simp add: storeTokens_absorb completion_absorb)
  qed
  have C: "fst (resolveHandle ag w h) = Inr d \<and> agent_getFollows ag d 30 = Inr fs \<and>
      (\<forall>f\<in>set (filter keepFollow fs). isl (answer ag (cursorGet w cm) (did f))) \<longrightarrow>
        fst (getMergedTimeline ag getTime w h cm) =
          Inr \<lparr>posts = [], cursorMap = length (maps w)\<rparr> \<and>
        maps (snd (getMergedTimeline ag getTime w h cm)) = maps w @ [[]]"
  proof
    assume a: "fst (resolveHandle ag w h) = Inr d \<and> agent_getFollows ag d 30 = Inr fs \<and>
        (\<forall>f\<in>set (filter keepFollow fs). isl (answer ag (cursorGet w cm) (did f)))"
    then have r: "fst (resolveHandle ag w h) = Inr d" and f: "agent_getFollows ag d 30 = Inr fs"
      and fail: "\<forall>f\<in>set (filter keepFollow fs). isl (answer ag (cursorGet w cm) (did f))"
      by simp_all
    have "entriesOf ag (cursorGet w cm) (filter keepFollow fs) = []"
      using fail by (auto simp: entriesOf_def feedAt_failed)
    then have res: "fst (getMergedTimeline ag getTime w h cm) =
        Inr \<lparr>posts = [], cursorMap = length (maps w)\<rparr>"
      by (simp add: getMergedTimeline_fst [OF assms r f])
    then have run: "getMergedTimeline ag getTime w h cm =
        (Inr \<lparr>posts = [], cursorMap = length (maps w)\<rparr>,
         snd (getMergedTimeline ag getTime w h cm))"
      by (cases "getMergedTimeline ag getTime w h cm") simp
    obtain ws where rs: "resolveHandle ag w h = (Inr d, ws)"
      using r by (cases "resolveHandle ag w h") simp
    have "storeTokens ag (cursorGet w cm)
        (completion ag (cursorGet w cm) (filter keepFollow fs)) [] = []"
      using fail by (intro storeTokens_none) (simp add: tokenAt_failed)
    then have "maps (snd (getMergedTimeline ag getTime w h cm)) = maps w @ [[]]"
      using getMergedTimeline_snd_success [OF assms run rs f, THEN arg_cong [where f = maps]]
      by simp
    with res show "fst (getMergedTimeline ag getTime w h cm) =
        Inr \<lparr>posts = [], cursorMap = length (maps w)\<rparr> \<and>
        maps (snd (getMergedTimeline ag getTime w h cm)) = maps w @ [[]]"
      by simp
  qed
  have D: "getMergedTimeline ag getTime w h cm = (Inr mt, w') \<and>
      isl (answer ag (cursorGet w cm) k) \<longrightarrow> mapGet w' (cursorMap mt) k = None"
  proof
    assume a: "getMergedTimeline ag getTime w h cm = (Inr mt, w') \<and>
        isl (answer ag (cursorGet w cm) k)"
    then have run: "getMergedTimeline ag getTime w h cm = (Inr mt, w')"
      and fail: "isl (answer ag (cursorGet w cm) k)"
      by simp_all
    from getMergedTimeline_Inr_inputs [OF run] obtain d' fs' ws
      where r: "resolveHandle ag w h = (Inr d', ws)" and f: "agent_getFollows ag d' 30 = Inr fs'"
      by (cases "resolveHandle ag w h") auto
    have r1: "fst (resolveHandle ag w h) = Inr d'" by (simp add: r)
    from getMergedTimeline_success [OF assms run r1 f]
    have c: "cursorMap mt = length (maps w)" by blast
    show "mapGet w' (cursorMap mt) k = None"
      by (simp add: mapGet_def c getMergedTimeline_lookup_success [OF assms run r f]
            tokenAt_failed [OF fail])
  qed
  from A B C D show ?thesis by blast
qed


theorem fetch_failures_absorbed_witness:
  "validRef world0 None \<and>
   fst (getMergedTimeline demoAgent demoTime world0 ''root.example'' None) =
     fst (getMergedTimeline (absorbFailures demoAgent) demoTime world0 ''root.example'' None) \<and>
   maps (snd (getMergedTimeline (absorbFailures demoAgent) demoTime world0 ''root.example'' None)) =
     maps world1 \<and>
   isl (answer demoAgent (cursorGet world0 None) ''did:plc:bob'') \<and>
   mapGet world1 0 ''did:plc:bob'' = None \<and>
   list_all (\<lambda>f. isl (answer downAgent (cursorGet world0 None) (did f)))
     (filter keepFollow [alice, bob, carol, dave]) \<and>
   fst (getMergedTimeline downAgent demoTime world0 ''root.example'' None) =
     Inr \<lparr>posts = [], cursorMap = 0\<rparr> \<and>
   maps (snd (getMergedTimeline downAgent demoTime world0 ''root.example'' None)) = [[]]"
proof -
  let ?mt = "\<lparr>posts = demoPosts, cursorMap = 0\<rparr>"
  let ?fs = "[alice, bob, carol, dave]"
  have bobFails: "isl (answer demoAgent (cursorGet world0 None) ''did:plc:bob'')"
    by (simp add: answer_def demoAgent_def demoFeed_def)
  have allFail: "\<forall>f\<in>set (filter keepFollow ?fs). isl (answer downAgent (cursorGet world0 None) (did f))"
    by (simp add: answer_def downAgent_def)
  have r: "fst (resolveHandle downAgent world0 ''root.example'') = Inr ''did:plc:root''"
    by (simp add: resolveHandle_def startsWith_def downAgent_def demoAgent_def)
  have f: "agent_getFollows downAgent ''did:plc:root'' 30 = Inr ?fs"
    by (simp add: downAgent_def demoAgent_def)
  note T1 = fetch_failures_absorbed [OF demo_valid, of demoAgent demoTime "''root.example''"
      ?mt world1 "''did:plc:root''" ?fs "''did:plc:bob''"]
  note T2 = fetch_failures_absorbed [OF demo_valid, of downAgent demoTime "''root.example''"
      ?mt world1 "''did:plc:root''" ?fs "''did:plc:bob''"]
  from T1 have a: "fst (getMergedTimeline demoAgent demoTime world0 ''root.example'' None) =
      fst (getMergedTimeline (absorbFailures demoAgent) demoTime world0 ''root.example'' None)"
    by blast
  from T1 demo_run have b:
    "maps (snd (getMergedTimeline (absorbFailures demoAgent) demoTime world0 ''root.example'' None)) =
      maps world1"
    by blast
  from T1 demo_run bobFails have d: "mapGet world1 (cursorMap ?mt) ''did:plc:bob'' = None"
    by blast
  from T2 r f allFail have c:
    "fst (getMergedTimeline downAgent demoTime world0 ''root.example'' None) =
       Inr \<lparr>posts = [], cursorMap = length (maps world0)\<rparr> \<and>
     maps (snd (getMergedTimeline downAgent demoTime world0 ''root.example'' None)) =
       maps world0 @ [[]]"
    by blast
  have w0: "maps world0 = []" by (simp add: world0_def)
  from demo_valid a b bobFails d allFail c show ?thesis
    by (simp add: w0 list_all_iff)
qed


section \<open>The Map objects\<close>

lemma getMergedTimeline_maps:
  assumes v: "validRef w cm"
  shows "take (length (maps w)) (maps (snd (getMergedTimeline ag getTime w h cm))) = maps w"
proof (cases "resolveHandle ag w h")
  case (Pair r ws)
  have m: "maps ws = maps w" using resolveHandle_maps [of ag w h] Pair by simp
  show ?thesis
  proof (cases r)
    case (Inl e)
    with Pair m show ?thesis by (simp add: getMergedTimeline_def)
  next
    case (Inr d)
    note r = Pair [unfolded Inr]
    show ?thesis
    proof (cases "agent_getFollows ag d 30")
      case (Inl e)
      with r m show ?thesis by (simp add: getMergedTimeline_def emit_def)
    next
      case (Inr fs)
      from getMergedTimeline_snd [OF v r Inr, of getTime] obtain al cs
        where "snd (getMergedTimeline ag getTime w h cm) = \<lparr>calls = cs, maps = maps w @ [al]\<rparr>"
        by blast
      then show ?thesis by simp
    qed
  qed
qed

lemma tokenAt_Some:
  "tokenAt ag cur k = Some c \<longleftrightarrow>
     (\<exists>res. answer ag cur k = Inr res \<and> cursor res = Some c \<and> c \<noteq> [])"
  by (cases "answer ag cur k") (auto simp: tokenAt_def split: option.splits)

text \<open>
  Claim C8, as amended. \<open>getMergedTimeline\<close> never writes to a \<open>Map\<close> that existed
  before the call, the caller's cursor map included, whatever the outcome. After a
  successful call the returned cursor map is an object that did not exist before, and it
  has the entry \<open>k \<mapsto> c\<close> exactly when \<open>k\<close> is a queried account whose feed request
  succeeded with the non-empty cursor \<open>c\<close>.
\<close>

theorem cursor_map_is_fresh:
  assumes "validRef w cm"
    and "getMergedTimeline ag getTime w h cm = (outcome, w')"
  shows "take (length (maps w)) (maps w') = maps w \<and>
     (outcome = Inr mt \<longrightarrow>
        cursorMap mt = length (maps w) \<and>
        length (maps w') = Suc (length (maps w)) \<and>
        cm \<noteq> Some (cursorMap mt) \<and>
        (fst (resolveHandle ag w h) = Inr d \<and> agent_getFollows ag d 30 = Inr fs \<longrightarrow>
           (mapGet w' (cursorMap mt) k = Some c \<longleftrightarrow>
              k \<in> did ` set (filter keepFollow fs) \<and>
              (\<exists>res. agent_getAuthorFeed ag k 10 (cursorGet w cm k) = Inr res \<and>
                     cursor res = Some c \<and> c \<noteq> []))))"
proof -
  have A: "take (length (maps w)) (maps w') = maps w"
    using getMergedTimeline_maps [OF assms(1), of ag getTime h] by (simp add: assms(2))
  have B: "outcome = Inr mt \<longrightarrow>
        cursorMap mt = length (maps w) \<and>
        length (maps w') = Suc (length (maps w)) \<and>
        cm \<noteq> Some (cursorMap mt) \<and>
        (fst (resolveHandle ag w h) = Inr d \<and> agent_getFollows ag d 30 = Inr fs \<longrightarrow>
           (mapGet w' (cursorMap mt) k = Some c \<longleftrightarrow>
              k \<in> did ` set (filter keepFollow fs) \<and>
              (\<exists>res. agent_getAuthorFeed ag k 10 (cursorGet w cm k) = Inr res \<and>
                     cursor res = Some c \<and> c \<noteq> [])))"
  proof
    assume o: "outcome = Inr mt"
    note run = assms(2) [unfolded o]
    from getMergedTimeline_Inr_inputs [OF run] obtain d' fs' ws
      where r: "resolveHandle ag w h = (Inr d', ws)" and f: "agent_getFollows ag d' 30 = Inr fs'"
      by (cases "resolveHandle ag w h") auto
    have r1: "fst (resolveHandle ag w h) = Inr d'" by (simp add: r)
    from getMergedTimeline_success [OF assms(1) run r1 f]
    have c: "cursorMap mt = length (maps w)" by blast
    have m: "maps w' = maps w @ [storeTokens ag (cursorGet w cm)
        (completion ag (cursorGet w cm) (filter keepFollow fs')) []]"
      using getMergedTimeline_snd_success [OF assms(1) run r f] by simp
    have ne: "cm \<noteq> Some (cursorMap mt)"
      using assms(1) by (auto simp: c validRef_def)
    have e: "fst (resolveHandle ag w h) = Inr d \<and> agent_getFollows ag d 30 = Inr fs \<longrightarrow>
           (mapGet w' (cursorMap mt) k = Some c \<longleftrightarrow>
              k \<in> did ` set (filter keepFollow fs) \<and>
              (\<exists>res. agent_getAuthorFeed ag k 10 (cursorGet w cm k) = Inr res \<and>
                     cursor res = Some c \<and> c \<noteq> []))"
    proof
      assume "fst (resolveHandle ag w h) = Inr d \<and> agent_getFollows ag d 30 = Inr fs"
      with r1 f have same: "d' = d" "fs' = fs" by simp_all
      have "mapGet w' (cursorMap mt) k =
          (if k \<in> did ` set (filter keepFollow fs) \<and> tokenAt ag (cursorGet w cm) k \<noteq> None
           then tokenAt ag (cursorGet w cm) k else None)"
        by (simp add: mapGet_def c m map_of_storeTokens same)
      then show "mapGet w' (cursorMap mt) k = Some c \<longleftrightarrow>
              k \<in> did ` set (filter keepFollow fs) \<and>
              (\<exists>res. agent_getAuthorFeed ag k 10 (cursorGet w cm k) = Inr res \<and>
                     cursor res = Some c \<and> c \<noteq> [])"
        using tokenAt_Some [of ag "cursorGet w cm" k c]
        by (auto simp: answer_def)
    qed
    from c m ne e show "cursorMap mt = length (maps w) \<and>
        length (maps w') = Suc (length (maps w)) \<and>
        cm \<noteq> Some (cursorMap mt) \<and>
        (fst (resolveHandle ag w h) = Inr d \<and> agent_getFollows ag d 30 = Inr fs \<longrightarrow>
           (mapGet w' (cursorMap mt) k = Some c \<longleftrightarrow>
              k \<in> did ` set (filter keepFollow fs) \<and>
              (\<exists>res. agent_getAuthorFeed ag k 10 (cursorGet w cm k) = Inr res \<and>
                     cursor res = Some c \<and> c \<noteq> [])))"
      by simp
  qed
  from A B show ?thesis by blast
qed

lemma demo_run2:
  "getMergedTimeline demoAgent demoTime world1 ''root.example'' (Some 0) =
     (Inr \<lparr>posts = [mkPost ''at://dave/1'' dave ''2024-01-02T00:00:00.000Z'' None],
           cursorMap = 1\<rparr>, world2)"
  by code_simp

lemma demo_valid1: "validRef world1 (Some 0)"
  by (simp add: validRef_def world1_def)

lemma demo_root1: "fst (resolveHandle demoAgent world1 ''root.example'') = Inr ''did:plc:root''"
  by (simp add: resolveHandle_def startsWith_def demoAgent_def)

theorem cursor_map_is_fresh_witness:
  "validRef world0 None \<and>
   (mapGet world1 0 ''did:plc:alice'' = Some ''cursor-a1'' \<longleftrightarrow>
      ''did:plc:alice'' \<in> did ` set (filter keepFollow [alice, bob, carol, dave]) \<and>
      (\<exists>res. agent_getAuthorFeed demoAgent ''did:plc:alice'' 10 (cursorGet world0 None ''did:plc:alice'')
               = Inr res \<and> cursor res = Some ''cursor-a1'' \<and> ''cursor-a1'' \<noteq> [])) \<and>
   validRef world1 (Some 0) \<and>
   take (length (maps world1)) (maps world2) = maps world1 \<and>
   length (maps world2) = Suc (length (maps world1)) \<and>
   Some 0 \<noteq> Some (1::nat)"
proof -
  let ?mt1 = "\<lparr>posts = demoPosts, cursorMap = 0\<rparr>"
  let ?mt2 = "\<lparr>posts = [mkPost ''at://dave/1'' dave ''2024-01-02T00:00:00.000Z'' None],
           cursorMap = 1\<rparr>"
  note T1 = cursor_map_is_fresh [OF demo_valid demo_run, of ?mt1 "''did:plc:root''"
      "[alice, bob, carol, dave]" "''did:plc:alice''" "''cursor-a1''"]
  note T2 = cursor_map_is_fresh [OF demo_valid1 demo_run2, of ?mt2 "''did:plc:root''"
      "[alice, bob, carol, dave]" "''did:plc:alice''" "''cursor-a1''"]
  from T1 demo_root demo_follows
  have a: "mapGet world1 (cursorMap ?mt1) ''did:plc:alice'' = Some ''cursor-a1'' \<longleftrightarrow>
      ''did:plc:alice'' \<in> did ` set (filter keepFollow [alice, bob, carol, dave]) \<and>
      (\<exists>res. agent_getAuthorFeed demoAgent ''did:plc:alice'' 10 (cursorGet world0 None ''did:plc:alice'')
               = Inr res \<and> cursor res = Some ''cursor-a1'' \<and> ''cursor-a1'' \<noteq> [])"
    by blast
  from T2 have b: "take (length (maps world1)) (maps world2) = maps world1"
    and c: "length (maps world2) = Suc (length (maps world1))"
    and d: "Some 0 \<noteq> Some (cursorMap ?mt2)"
    by blast+
  from demo_valid demo_valid1 a b c d show ?thesis by simp
qed

text \<open>
  The claim as stated speaks of every queried account whose fetch returned a
  continuation token. Dave is queried and his page comes with a cursor, the empty string;
  the returned cursor map has no entry for him.
\<close>

theorem cursor_map_is_fresh_counterexample:
  "getMergedTimeline demoAgent demoTime world0 ''root.example'' None =
     (Inr \<lparr>posts = demoPosts, cursorMap = 0\<rparr>, world1) \<and>
   GetAuthorFeed ''did:plc:dave'' 10 None \<in> set (calls world1) \<and>
   agent_getAuthorFeed demoAgent ''did:plc:dave'' 10 None =
     Inr \<lparr>feed = [mkEntry ''at://dave/1'' dave ''2024-01-02T00:00:00.000Z'' None],
          cursor = Some ''''\<rparr> \<and>
   mapGet world1 0 ''did:plc:dave'' = None"
  by code_simp


section \<open>The requests\<close>

lemma resolveHandle_calls:
  "calls (snd (resolveHandle ag w h)) =
     calls w @ (if startsWith h ''did:'' then [] else [ResolveHandle h])"
  by (simp add: resolveHandle_def emit_def)

lemma isFetch_request [simp]: "isFetch (request cur f)"
  by (simp add: isFetch_def request_def)

lemma filter_isFetch_requests: "filter isFetch (map (request cur) b) = map (request cur) b"
  by (induction b) simp_all

lemma filter_isFetch_errorsOf: "filter isFetch (errorsOf ag cur b) = []"
  by (induction b) (auto simp: isFetch_def split: sum.splits)

lemma errorsOf_not_fetch: "c \<in> set (errorsOf ag cur b) \<Longrightarrow> \<not> isFetch c"
  by (induction b) (auto simp: isFetch_def split: sum.splits)

lemma filter_isFetch_batches:
  "filter isFetch (concat (map (batchLog ag cur) bs)) = map (request cur) (concat bs)"
  by (induction bs) (simp_all add: batchLog_def filter_isFetch_requests filter_isFetch_errorsOf)

lemma fetches_of_batches:
  assumes "c \<in> set (concat (map (batchLog ag cur) (take k bs)))"
    and "isFetch c"
  shows "\<exists>f\<in>set (concat bs). c = request cur f"
proof -
  from assms(1) obtain b where b: "b \<in> set (take k bs)"
    and c: "c \<in> set (map (request cur) b) \<or> c \<in> set (errorsOf ag cur (settled ag cur b))"
    by (auto simp: batchLog_def)
  from c assms(2) errorsOf_not_fetch have "c \<in> set (map (request cur) b)" by blast
  then obtain f where "f \<in> set b" and "c = request cur f" by auto
  moreover from b have "b \<in> set bs" by (rule in_set_takeD)
  ultimately show ?thesis by auto
qed

text \<open>What a call adds to the request log, whatever its outcome.\<close>

lemma getMergedTimeline_calls:
  assumes v: "validRef w cm"
  shows "\<exists>new. calls (snd (getMergedTimeline ag getTime w h cm)) = calls w @ new \<and>
     (\<forall>c\<in>set new. isFetch c \<longrightarrow>
        (\<exists>d fs f. fst (resolveHandle ag w h) = Inr d \<and> agent_getFollows ag d 30 = Inr fs \<and>
           f \<in> set (filter keepFollow fs) \<and> c = request (cursorGet w cm) f))"
proof (cases "resolveHandle ag w h")
  case (Pair r ws)
  have cs: "calls ws = calls w @ (if startsWith h ''did:'' then [] else [ResolveHandle h])"
    using resolveHandle_calls [of ag w h] Pair by simp
  let ?pre = "if startsWith h ''did:'' then [] else [ResolveHandle h]"
  have pre: "\<forall>c\<in>set ?pre. \<not> isFetch c" by (simp add: isFetch_def)
  show ?thesis
  proof (cases r)
    case (Inl e)
    with Pair have "calls (snd (getMergedTimeline ag getTime w h cm)) = calls w @ ?pre"
      by (simp add: getMergedTimeline_def cs)
    with pre show ?thesis by blast
  next
    case (Inr d)
    note r = Pair [unfolded Inr]
    have r1: "fst (resolveHandle ag w h) = Inr d" by (simp add: r)
    show ?thesis
    proof (cases "agent_getFollows ag d 30")
      case (Inl e)
      with r have "calls (snd (getMergedTimeline ag getTime w h cm)) =
          calls w @ (?pre @ [GetFollows d 30])"
        by (simp add: getMergedTimeline_def emit_def cs)
      moreover have "\<forall>c\<in>set (?pre @ [GetFollows d 30]). \<not> isFetch c"
        by (simp add: isFetch_def)
      ultimately show ?thesis by blast
    next
      case (Inr fs)
      let ?bs = "batchesFrom (filter keepFollow fs) 0"
      let ?cur = "cursorGet w cm"
      from getMergedTimeline_snd [OF v r Inr, of getTime] obtain k
        where s: "snd (getMergedTimeline ag getTime w h cm) =
           \<lparr>calls = calls ws @ GetFollows d 30 #
               concat (map (batchLog ag ?cur) (take k ?bs)),
            maps = maps w @
              [storeTokens ag ?cur (concat (map (settled ag ?cur) (take k ?bs))) []]\<rparr>"
        by blast
      let ?tail = "concat (map (batchLog ag ?cur) (take k ?bs))"
      let ?new = "?pre @ GetFollows d 30 # ?tail"
      have "calls (snd (getMergedTimeline ag getTime w h cm)) = calls w @ ?new"
        by (simp add: s cs)
      moreover have "\<forall>c\<in>set ?new. isFetch c \<longrightarrow>
        (\<exists>d fs f. fst (resolveHandle ag w h) = Inr d \<and> agent_getFollows ag d 30 = Inr fs \<and>
           f \<in> set (filter keepFollow fs) \<and> c = request ?cur f)"
      proof (intro ballI impI)
        fix c assume c: "c \<in> set ?new" and i: "isFetch c"
        from c i pre have "c \<in> set ?tail" by (auto simp: isFetch_def)
        from fetches_of_batches [OF this i] obtain f
          where "f \<in> set (concat ?bs)" and "c = request ?cur f" by blast
        then have "f \<in> set (filter keepFollow fs)" and "c = request ?cur f"
          by (simp_all add: concat_batchesFrom)
        with r1 Inr show "\<exists>d fs f. fst (resolveHandle ag w h) = Inr d \<and>
            agent_getFollows ag d 30 = Inr fs \<and>
            f \<in> set (filter keepFollow fs) \<and> c = request ?cur f"
          by blast
      qed
      ultimately show ?thesis by blast
    qed
  qed
qed

lemma getMergedTimeline_fetches_success:
  assumes v: "validRef w cm"
    and run: "getMergedTimeline ag getTime w h cm = (Inr mt, w')"
    and r: "fst (resolveHandle ag w h) = Inr d" and f: "agent_getFollows ag d 30 = Inr fs"
  shows "filter isFetch (drop (length (calls w)) (calls w')) =
     map (request (cursorGet w cm)) (filter keepFollow fs)"
proof -
  obtain ws where rs: "resolveHandle ag w h = (Inr d, ws)"
    using r by (cases "resolveHandle ag w h") simp
  have cs: "calls ws = calls w @ (if startsWith h ''did:'' then [] else [ResolveHandle h])"
    using resolveHandle_calls [of ag w h] rs by simp
  have "calls w' = calls w @ (if startsWith h ''did:'' then [] else [ResolveHandle h]) @
      GetFollows d 30 #
      concat (map (batchLog ag (cursorGet w cm)) (batchesFrom (filter keepFollow fs) 0))"
    using getMergedTimeline_snd_success [OF v run rs f] by (simp add: cs)
  then show ?thesis
    by (simp add: filter_isFetch_batches concat_batchesFrom isFetch_def)
qed


text \<open>
  Claim C4. A call of \<open>getMergedTimeline\<close> asks the agent for the feed of each kept
  follow with limit 10 and, as cursor, what the caller's cursor map holds under the
  identifier of that very account, read from the map as it was when the call began; with
  no cursor when no map was passed or the map has no entry for the account.
  The log shows these requests and no other feed request. The answers to them are what
  the call works with: the returned posts are made from the pages given in answer to
  exactly these requests, and the returned cursor map holds the cursors of these pages.
  The answer to any other feed request does not matter: an agent that answers these
  requests the same way (and resolves and lists follows the same way) leads to the same
  outcome.
\<close>

theorem each_fetch_gets_own_token:
  assumes "validRef w cm"
    and "getMergedTimeline ag getTime w h cm = (outcome, w')"
  shows "take (length (calls w)) (calls w') = calls w \<and>
     (\<forall>a n t. GetAuthorFeed a n t \<in> set (drop (length (calls w)) (calls w')) \<longrightarrow>
        t = (case cm of None \<Rightarrow> None | Some r \<Rightarrow> map_of (maps w ! r) a)) \<and>
     (outcome = Inr mt \<and> fst (resolveHandle ag w h) = Inr d \<and> agent_getFollows ag d 30 = Inr fs \<longrightarrow>
        filter isFetch (drop (length (calls w)) (calls w')) =
          map (\<lambda>f. GetAuthorFeed (did f) 10
                     (case cm of None \<Rightarrow> None | Some r \<Rightarrow> map_of (maps w ! r) (did f)))
              (filter keepFollow fs) \<and>
        (\<exists>ps. mapE toPost
                (filter (\<lambda>e. did (pv_author (post e)) \<noteq> d)
                   (concat (map
                      (\<lambda>f. case agent_getAuthorFeed ag (did f) 10
                                  (case cm of None \<Rightarrow> None | Some r \<Rightarrow> map_of (maps w ! r) (did f)) of
                             Inl err \<Rightarrow> []
                           | Inr page \<Rightarrow> feed page)
                      (filter keepFollow fs)))) = Inr ps \<and>
              mset (posts mt) = mset ps) \<and>
        (mapGet w' (cursorMap mt) k = Some c \<longleftrightarrow>
           k \<in> did ` set (filter keepFollow fs) \<and>
           (\<exists>page. agent_getAuthorFeed ag k 10
                      (case cm of None \<Rightarrow> None | Some r \<Rightarrow> map_of (maps w ! r) k) = Inr page \<and>
                   cursor page = Some c \<and> c \<noteq> []))) \<and>
     (fst (resolveHandle ag w h) = Inr d \<and> agent_getFollows ag d 30 = Inr fs \<and>
      agent_resolveHandle ag' = agent_resolveHandle ag \<and>
      agent_getFollows ag' = agent_getFollows ag \<and>
      (\<forall>f\<in>set (filter keepFollow fs).
         agent_getAuthorFeed ag' (did f) 10
             (case cm of None \<Rightarrow> None | Some r \<Rightarrow> map_of (maps w ! r) (did f)) =
           agent_getAuthorFeed ag (did f) 10
             (case cm of None \<Rightarrow> None | Some r \<Rightarrow> map_of (maps w ! r) (did f))) \<longrightarrow>
        fst (getMergedTimeline ag' getTime w h cm) = fst (getMergedTimeline ag getTime w h cm))"
proof -
  let ?tok = "\<lambda>a. case cm of None \<Rightarrow> None | Some r \<Rightarrow> map_of (maps w ! r) a"
  have cur: "cursorGet w cm = ?tok"
    by (simp add: cursorGet_def mapGet_def fun_eq_iff split: option.splits)
  from getMergedTimeline_calls [OF assms(1), of ag getTime h] obtain new
    where n: "calls w' = calls w @ new"
      and f: "\<forall>c\<in>set new. isFetch c \<longrightarrow> (\<exists>f. c = request (cursorGet w cm) f)"
    unfolding assms(2) by auto
  have A: "take (length (calls w)) (calls w') = calls w" by (simp add: n)
  have B: "\<forall>a n t. GetAuthorFeed a n t \<in> set (drop (length (calls w)) (calls w')) \<longrightarrow> t = ?tok a"
  proof (intro allI impI)
    fix a m t
    assume "GetAuthorFeed a m t \<in> set (drop (length (calls w)) (calls w'))"
    then have "GetAuthorFeed a m t \<in> set new" by (simp add: n)
    moreover have "isFetch (GetAuthorFeed a m t)" by (simp add: isFetch_def)
    ultimately obtain g where "GetAuthorFeed a m t = request (cursorGet w cm) g"
      using f by blast
    then show "t = ?tok a"
      by (auto simp: request_def cur)
  qed
  have C: "outcome = Inr mt \<and> fst (resolveHandle ag w h) = Inr d \<and>
      agent_getFollows ag d 30 = Inr fs \<longrightarrow>
        filter isFetch (drop (length (calls w)) (calls w')) =
          map (\<lambda>f. GetAuthorFeed (did f) 10 (?tok (did f))) (filter keepFollow fs) \<and>
        (\<exists>ps. mapE toPost
                (filter (\<lambda>e. did (pv_author (post e)) \<noteq> d)
                   (concat (map
                      (\<lambda>f. case agent_getAuthorFeed ag (did f) 10 (?tok (did f)) of
                             Inl err \<Rightarrow> []
                           | Inr page \<Rightarrow> feed page)
                      (filter keepFollow fs)))) = Inr ps \<and>
              mset (posts mt) = mset ps) \<and>
        (mapGet w' (cursorMap mt) k = Some c \<longleftrightarrow>
           k \<in> did ` set (filter keepFollow fs) \<and>
           (\<exists>page. agent_getAuthorFeed ag k 10 (?tok k) = Inr page \<and>
                   cursor page = Some c \<and> c \<noteq> []))"
  proof
    assume a: "outcome = Inr mt \<and> fst (resolveHandle ag w h) = Inr d \<and>
      agent_getFollows ag d 30 = Inr fs"
    then have run: "getMergedTimeline ag getTime w h cm = (Inr mt, w')"
      and r: "fst (resolveHandle ag w h) = Inr d" and fl: "agent_getFollows ag d 30 = Inr fs"
      using assms(2) by simp_all
    obtain ws where rs: "resolveHandle ag w h = (Inr d, ws)"
      using r by (cases "resolveHandle ag w h") simp
    have c1: "filter isFetch (drop (length (calls w)) (calls w')) =
        map (\<lambda>f. GetAuthorFeed (did f) 10 (?tok (did f))) (filter keepFollow fs)"
      using getMergedTimeline_fetches_success [OF assms(1) run r fl]
      by (simp add: request_def [abs_def] cur)
    from getMergedTimeline_success [OF assms(1) run r fl] obtain ps
      where m: "mapE toPost (filter (notSelf d)
            (entriesOf ag (cursorGet w cm) (filter keepFollow fs))) = Inr ps"
        and s: "posts mt = arraySort (byIndexedAtDesc getTime) ps"
        and cmp: "cursorMap mt = length (maps w)"
      by blast
    have e: "entriesOf ag (cursorGet w cm) (filter keepFollow fs) =
        concat (map
          (\<lambda>f. case agent_getAuthorFeed ag (did f) 10 (?tok (did f)) of
                 Inl err \<Rightarrow> []
               | Inr page \<Rightarrow> feed page)
          (filter keepFollow fs))"
      by (simp add: entriesOf_def feedAt_def [abs_def] answer_def cur)
    have nz: "notSelf d = (\<lambda>e. did (pv_author (post e)) \<noteq> d)"
      by (simp add: notSelf_def fun_eq_iff)
    have c2: "\<exists>ps. mapE toPost
                (filter (\<lambda>e. did (pv_author (post e)) \<noteq> d)
                   (concat (map
                      (\<lambda>f. case agent_getAuthorFeed ag (did f) 10 (?tok (did f)) of
                             Inl err \<Rightarrow> []
                           | Inr page \<Rightarrow> feed page)
                      (filter keepFollow fs)))) = Inr ps \<and>
              mset (posts mt) = mset ps"
      using m s unfolding e nz by (auto simp: mset_arraySort)
    have "mapGet w' (cursorMap mt) k =
        (if k \<in> did ` set (filter keepFollow fs) \<and> tokenAt ag (cursorGet w cm) k \<noteq> None
         then tokenAt ag (cursorGet w cm) k else None)"
      by (simp add: mapGet_def cmp getMergedTimeline_lookup_success [OF assms(1) run rs fl])
    then have c3: "mapGet w' (cursorMap mt) k = Some c \<longleftrightarrow>
           k \<in> did ` set (filter keepFollow fs) \<and>
           (\<exists>page. agent_getAuthorFeed ag k 10 (?tok k) = Inr page \<and>
                   cursor page = Some c \<and> c \<noteq> [])"
      using tokenAt_Some [of ag "cursorGet w cm" k c]
      by (auto simp: answer_def cur)
    from c1 c2 c3 show "filter isFetch (drop (length (calls w)) (calls w')) =
          map (\<lambda>f. GetAuthorFeed (did f) 10 (?tok (did f))) (filter keepFollow fs) \<and>
        (\<exists>ps. mapE toPost
                (filter (\<lambda>e. did (pv_author (post e)) \<noteq> d)
                   (concat (map
                      (\<lambda>f. case agent_getAuthorFeed ag (did f) 10 (?tok (did f)) of
                             Inl err \<Rightarrow> []
                           | Inr page \<Rightarrow> feed page)
                      (filter keepFollow fs)))) = Inr ps \<and>
              mset (posts mt) = mset ps) \<and>
        (mapGet w' (cursorMap mt) k = Some c \<longleftrightarrow>
           k \<in> did ` set (filter keepFollow fs) \<and>
           (\<exists>page. agent_getAuthorFeed ag k 10 (?tok k) = Inr page \<and>
                   cursor page = Some c \<and> c \<noteq> []))"
      by blast
  qed
  have D: "fst (resolveHandle ag w h) = Inr d \<and> agent_getFollows ag d 30 = Inr fs \<and>
      agent_resolveHandle ag' = agent_resolveHandle ag \<and>
      agent_getFollows ag' = agent_getFollows ag \<and>
      (\<forall>f\<in>set (filter keepFollow fs).
         agent_getAuthorFeed ag' (did f) 10 (?tok (did f)) =
           agent_getAuthorFeed ag (did f) 10 (?tok (did f))) \<longrightarrow>
        fst (getMergedTimeline ag' getTime w h cm) = fst (getMergedTimeline ag getTime w h cm)"
  proof
    assume a: "fst (resolveHandle ag w h) = Inr d \<and> agent_getFollows ag d 30 = Inr fs \<and>
      agent_resolveHandle ag' = agent_resolveHandle ag \<and>
      agent_getFollows ag' = agent_getFollows ag \<and>
      (\<forall>f\<in>set (filter keepFollow fs).
         agent_getAuthorFeed ag' (did f) 10 (?tok (did f)) =
           agent_getAuthorFeed ag (did f) 10 (?tok (did f)))"
    then have r: "fst (resolveHandle ag w h) = Inr d" and fl: "agent_getFollows ag d 30 = Inr fs"
      and rr: "agent_resolveHandle ag' = agent_resolveHandle ag"
      and ff: "agent_getFollows ag' = agent_getFollows ag"
      and same: "\<forall>f\<in>set (filter keepFollow fs).
         agent_getAuthorFeed ag' (did f) 10 (?tok (did f)) =
           agent_getAuthorFeed ag (did f) 10 (?tok (did f))"
      by simp_all
    have r': "fst (resolveHandle ag' w h) = Inr d"
      using r by (simp add: resolveHandle_def rr split: if_splits)
    have fl': "agent_getFollows ag' d 30 = Inr fs"
      by (simp add: ff fl)
    have "entriesOf ag' (cursorGet w cm) (filter keepFollow fs) =
        entriesOf ag (cursorGet w cm) (filter keepFollow fs)"
      unfolding entriesOf_def
      by (rule arg_cong [where f = concat], rule map_cong)
         (simp_all add: feedAt_def answer_def cur same)
    then show "fst (getMergedTimeline ag' getTime w h cm) =
        fst (getMergedTimeline ag getTime w h cm)"
      by (simp add: getMergedTimeline_fst [OF assms(1) r fl]
            getMergedTimeline_fst [OF assms(1) r' fl'])
  qed
  from A B C D show ?thesis by blast
qed

theorem each_fetch_gets_own_token_witness:
  "validRef world1 (Some 0) \<and>
   maps world1 ! 0 = [(''did:plc:alice'', ''cursor-a1'')] \<and>
   take (length (calls world1)) (calls world2) = calls world1 \<and>
   GetAuthorFeed ''did:plc:alice'' 10 (Some ''cursor-a1'')
     \<in> set (drop (length (calls world1)) (calls world2)) \<and>
   map_of (maps world1 ! 0) ''did:plc:alice'' = Some ''cursor-a1'' \<and>
   GetAuthorFeed ''did:plc:dave'' 10 None \<in> set (drop (length (calls world1)) (calls world2)) \<and>
   map_of (maps world1 ! 0) ''did:plc:dave'' = None \<and>
   filter isFetch (drop (length (calls world1)) (calls world2)) =
     [GetAuthorFeed ''did:plc:alice'' 10 (Some ''cursor-a1''),
      GetAuthorFeed ''did:plc:bob'' 10 None,
      GetAuthorFeed ''did:plc:dave'' 10 None] \<and>
   agent_getAuthorFeed demoAgent ''did:plc:alice'' 10 (Some ''cursor-a1'') =
     Inr \<lparr>feed = [], cursor = None\<rparr> \<and>
   agent_getAuthorFeed demoAgent ''did:plc:alice'' 10 None \<noteq>
     Inr \<lparr>feed = [], cursor = None\<rparr> \<and>
   (\<exists>ps. mapE toPost
           (filter (\<lambda>e. did (pv_author (post e)) \<noteq> ''did:plc:root'')
              ([] @ [] @ [mkEntry ''at://dave/1'' dave ''2024-01-02T00:00:00.000Z'' None])) = Inr ps \<and>
         mset [mkPost ''at://dave/1'' dave ''2024-01-02T00:00:00.000Z'' None] = mset ps) \<and>
   mapGet world2 1 ''did:plc:alice'' \<noteq> Some ''cursor-a1'' \<and>
   agent_getAuthorFeed pickyAgent ''did:plc:alice'' 10 None = Inl (UpstreamError ''unexpected request'') \<and>
   fst (getMergedTimeline pickyAgent demoTime world1 ''root.example'' (Some 0)) =
     Inr \<lparr>posts = [mkPost ''at://dave/1'' dave ''2024-01-02T00:00:00.000Z'' None], cursorMap = 1\<rparr>"
proof -
  let ?mt = "\<lparr>posts = [mkPost ''at://dave/1'' dave ''2024-01-02T00:00:00.000Z'' None],
           cursorMap = 1\<rparr>"
  let ?new = "drop (length (calls world1)) (calls world2)"
  let ?tok = "\<lambda>a. case Some 0 of None \<Rightarrow> None | Some r \<Rightarrow> map_of (maps world1 ! r) a"
  note T = each_fetch_gets_own_token [OF demo_valid1 demo_run2, where mt = ?mt
      and d = "''did:plc:root''" and fs = "[alice, bob, carol, dave]"
      and k = "''did:plc:alice''" and c = "''cursor-a1''" and ag' = pickyAgent]
  note T1 = T [THEN conjunct1]
  note T2 = T [THEN conjunct2, THEN conjunct1, rule_format]
  note T3 = T [THEN conjunct2, THEN conjunct2, THEN conjunct1, rule_format,
      OF conjI [OF refl conjI [OF demo_root1 demo_follows]]]
  note T4 = T [THEN conjunct2, THEN conjunct2, THEN conjunct2, rule_format]
  have m: "maps world1 ! 0 = [(''did:plc:alice'', ''cursor-a1'')]"
    by (simp add: world1_def)
  have new: "?new =
      [ResolveHandle ''root.example'', GetFollows ''did:plc:root'' 30,
       GetAuthorFeed ''did:plc:alice'' 10 (Some ''cursor-a1''),
       GetAuthorFeed ''did:plc:bob'' 10 None,
       GetAuthorFeed ''did:plc:dave'' 10 None,
       ConsoleError ''bob.example'' (UpstreamError ''timeout'')]"
    by (simp add: world1_def world2_def demoCalls_def)
  have ia: "GetAuthorFeed ''did:plc:alice'' 10 (Some ''cursor-a1'') \<in> set ?new"
    and id: "GetAuthorFeed ''did:plc:dave'' 10 None \<in> set ?new"
    unfolding new by simp_all
  have a: "take (length (calls world1)) (calls world2) = calls world1"
    by (rule T1)
  have b: "map_of (maps world1 ! 0) ''did:plc:alice'' = Some ''cursor-a1''"
    using T2 [OF ia] by simp
  have c: "map_of (maps world1 ! 0) ''did:plc:dave'' = None"
    using T2 [OF id] by simp
  have k: "filter keepFollow [alice, bob, carol, dave] = [alice, bob, dave]"
    by (simp add: keepFollow_def alice_def bob_def carol_def dave_def mkProfile_def)
  have dids: "did alice = ''did:plc:alice''" "did bob = ''did:plc:bob''" "did dave = ''did:plc:dave''"
    by (simp_all add: alice_def bob_def dave_def mkProfile_def)
  have e: "filter isFetch ?new =
     [GetAuthorFeed ''did:plc:alice'' 10 (Some ''cursor-a1''),
      GetAuthorFeed ''did:plc:bob'' 10 None,
      GetAuthorFeed ''did:plc:dave'' 10 None]"
    using T3 [THEN conjunct1] unfolding k by (simp add: m dids)
  have fa: "agent_getAuthorFeed demoAgent ''did:plc:alice'' 10 (Some ''cursor-a1'') =
     Inr \<lparr>feed = [], cursor = None\<rparr>"
    by (simp add: demoAgent_def demoFeed_def)
  have fa': "agent_getAuthorFeed demoAgent ''did:plc:alice'' 10 None \<noteq>
     Inr \<lparr>feed = [], cursor = None\<rparr>"
    by (simp add: demoAgent_def demoFeed_def)
  have fb: "agent_getAuthorFeed demoAgent ''did:plc:bob'' 10 None = Inl (UpstreamError ''timeout'')"
    by (simp add: demoAgent_def demoFeed_def)
  have fd: "agent_getAuthorFeed demoAgent ''did:plc:dave'' 10 None =
     Inr \<lparr>feed = [mkEntry ''at://dave/1'' dave ''2024-01-02T00:00:00.000Z'' None], cursor = Some []\<rparr>"
    by (simp add: demoAgent_def demoFeed_def)
  have p: "\<exists>ps. mapE toPost
           (filter (\<lambda>e. did (pv_author (post e)) \<noteq> ''did:plc:root'')
              ([] @ [] @ [mkEntry ''at://dave/1'' dave ''2024-01-02T00:00:00.000Z'' None])) = Inr ps \<and>
         mset [mkPost ''at://dave/1'' dave ''2024-01-02T00:00:00.000Z'' None] = mset ps"
    using T3 [THEN conjunct2, THEN conjunct1] unfolding k
    by (simp add: m dids fa fb fd)
  have g: "mapGet world2 1 ''did:plc:alice'' \<noteq> Some ''cursor-a1''"
    using T3 [THEN conjunct2, THEN conjunct2] unfolding k
    by (simp add: m dids fa)
  have pa: "agent_getAuthorFeed pickyAgent ''did:plc:alice'' 10 None =
      Inl (UpstreamError ''unexpected request'')"
    by (simp add: pickyAgent_def)
  have same: "\<forall>f\<in>set (filter keepFollow [alice, bob, carol, dave]).
      agent_getAuthorFeed pickyAgent (did f) 10 (?tok (did f)) =
      agent_getAuthorFeed demoAgent (did f) 10 (?tok (did f))"
    unfolding k by (simp add: m dids pickyAgent_def demoAgent_def)
  have "fst (getMergedTimeline pickyAgent demoTime world1 ''root.example'' (Some 0)) =
      fst (getMergedTimeline demoAgent demoTime world1 ''root.example'' (Some 0))"
    by (rule T4 [OF conjI [OF demo_root1 conjI [OF demo_follows conjI [OF _ conjI [OF _ same]]]]])
       (simp_all add: pickyAgent_def)
  then have q: "fst (getMergedTimeline pickyAgent demoTime world1 ''root.example'' (Some 0)) = Inr ?mt"
    by (simp add: demo_run2)
  show ?thesis
    by (intro conjI) (fact demo_valid1 m a ia b id c e fa fa' p g pa q)+
qed


lemma keepFollow_iff:
  "keepFollow f \<longleftrightarrow>
     (labels f = None \<or> (\<exists>ls. labels f = Some ls \<and> ''!no-unauthenticated'' \<notin> val ` set ls))"
proof (cases "labels f")
  case None
  then show ?thesis by (simp add: keepFollow_def)
next
  case (Some ls)
  have "(\<exists>l\<in>set ls. val l = ''!no-unauthenticated'') \<longleftrightarrow>
      ''!no-unauthenticated'' \<in> val ` set ls"
    by force
  with Some show ?thesis by (simp add: keepFollow_def list_ex_iff)
qed

text \<open>
  Claim C7. A follow is kept exactly when it has no labels or none of its labels is
  \<open>!no-unauthenticated\<close>, and the kept follows stay in the order the collaborator
  gave them. Feed requests go to kept follows only; after a successful call they are the
  kept follows one by one, in that order, every key of the returned cursor map is a kept
  follow, and every returned post is the projection of an entry of a kept follow's feed.
  So a dropped account (one that is not also listed without the marker) is never
  queried, has no entry in the returned cursor map and has its feed read by nobody.
\<close>

theorem labelled_follows_are_dropped:
  assumes "validRef w cm"
    and "getMergedTimeline ag getTime w h cm = (outcome, w')"
    and "fst (resolveHandle ag w h) = Inr d"
    and "agent_getFollows ag d 30 = Inr fs"
  shows "filter keepFollow fs =
       filter (\<lambda>f. labels f = None \<or>
                 (\<exists>ls. labels f = Some ls \<and> ''!no-unauthenticated'' \<notin> val ` set ls)) fs \<and>
     (\<forall>a n t. GetAuthorFeed a n t \<in> set (drop (length (calls w)) (calls w')) \<longrightarrow>
        a \<in> did ` set (filter keepFollow fs)) \<and>
     (outcome = Inr mt \<longrightarrow>
        map (\<lambda>c. case c of GetAuthorFeed a n t \<Rightarrow> a | _ \<Rightarrow> [])
            (filter isFetch (drop (length (calls w)) (calls w'))) =
          map did (filter keepFollow fs) \<and>
        (\<forall>k. mapGet w' (cursorMap mt) k \<noteq> None \<longrightarrow> k \<in> did ` set (filter keepFollow fs)) \<and>
        (\<forall>p\<in>set (posts mt). \<exists>f\<in>set (filter keepFollow fs).
           \<exists>e\<in>set (feedAt ag (cursorGet w cm) (did f)). toPost e = Inr p)) \<and>
     (g \<in> set fs \<and> \<not> keepFollow g \<and> did g \<notin> did ` set (filter keepFollow fs) \<longrightarrow>
        (\<forall>n t. GetAuthorFeed (did g) n t \<notin> set (drop (length (calls w)) (calls w'))) \<and>
        (outcome = Inr mt \<longrightarrow> mapGet w' (cursorMap mt) (did g) = None))"
proof -
  let ?kept = "filter keepFollow fs"
  let ?new = "drop (length (calls w)) (calls w')"
  have A: "?kept =
       filter (\<lambda>f. labels f = None \<or>
                 (\<exists>ls. labels f = Some ls \<and> ''!no-unauthenticated'' \<notin> val ` set ls)) fs"
    by (rule filter_cong) (simp_all add: keepFollow_iff)
  from getMergedTimeline_calls [OF assms(1), of ag getTime h] obtain new
    where n: "calls w' = calls w @ new"
      and f: "\<forall>c\<in>set new. isFetch c \<longrightarrow>
        (\<exists>d fs f. fst (resolveHandle ag w h) = Inr d \<and> agent_getFollows ag d 30 = Inr fs \<and>
           f \<in> set (filter keepFollow fs) \<and> c = request (cursorGet w cm) f)"
    unfolding assms(2) by auto
  have B: "\<forall>a n t. GetAuthorFeed a n t \<in> set ?new \<longrightarrow> a \<in> did ` set ?kept"
  proof (intro allI impI)
    fix a m t
    assume "GetAuthorFeed a m t \<in> set ?new"
    then have "GetAuthorFeed a m t \<in> set new" by (simp add: n)
    moreover have "isFetch (GetAuthorFeed a m t)" by (simp add: isFetch_def)
    ultimately obtain d' fs' f' where "fst (resolveHandle ag w h) = Inr d'"
      and "agent_getFollows ag d' 30 = Inr fs'" and k: "f' \<in> set (filter keepFollow fs')"
      and c: "GetAuthorFeed a m t = request (cursorGet w cm) f'"
      using f by blast
    with assms(3,4) have "fs' = fs" by simp
    with k c show "a \<in> did ` set ?kept" by (auto simp: request_def)
  qed
  have C: "outcome = Inr mt \<longrightarrow>
        map (\<lambda>c. case c of GetAuthorFeed a n t \<Rightarrow> a | _ \<Rightarrow> []) (filter isFetch ?new) =
          map did ?kept \<and>
        (\<forall>k. mapGet w' (cursorMap mt) k \<noteq> None \<longrightarrow> k \<in> did ` set ?kept) \<and>
        (\<forall>p\<in>set (posts mt). \<exists>f\<in>set ?kept.
           \<exists>e\<in>set (feedAt ag (cursorGet w cm) (did f)). toPost e = Inr p)"
  proof
    assume o: "outcome = Inr mt"
    note run = assms(2) [unfolded o]
    obtain ws where rs: "resolveHandle ag w h = (Inr d, ws)"
      using assms(3) by (cases "resolveHandle ag w h") simp
    have c1: "map (\<lambda>c. case c of GetAuthorFeed a n t \<Rightarrow> a | _ \<Rightarrow> []) (filter isFetch ?new) =
        map did ?kept"
      by (simp add: getMergedTimeline_fetches_success [OF assms(1) run assms(3,4)]
            request_def [abs_def] comp_def)
    from getMergedTimeline_success [OF assms(1) run assms(3,4)] obtain ps
      where m: "mapE toPost (filter (notSelf d) (entriesOf ag (cursorGet w cm) ?kept)) = Inr ps"
        and s: "posts mt = arraySort (byIndexedAtDesc getTime) ps"
        and c: "cursorMap mt = length (maps w)"
      by blast
    have mp: "maps w' = maps w @ [storeTokens ag (cursorGet w cm)
        (completion ag (cursorGet w cm) ?kept) []]"
      using getMergedTimeline_snd_success [OF assms(1) run rs assms(4)] by simp
    have c2: "\<forall>k. mapGet w' (cursorMap mt) k \<noteq> None \<longrightarrow> k \<in> did ` set ?kept"
      by (simp add: mapGet_def c mp map_of_storeTokens)
    have c3: "\<forall>p\<in>set (posts mt). \<exists>f\<in>set ?kept.
           \<exists>e\<in>set (feedAt ag (cursorGet w cm) (did f)). toPost e = Inr p"
    proof
      fix p assume "p \<in> set (posts mt)"
      then have "p \<in> set ps" by (simp add: s set_arraySort)
      from mapE_Inr_set [OF m this] obtain e
        where "e \<in> set (entriesOf ag (cursorGet w cm) ?kept)" and "toPost e = Inr p"
        by auto
      then show "\<exists>f\<in>set ?kept. \<exists>e\<in>set (feedAt ag (cursorGet w cm) (did f)). toPost e = Inr p"
        by (auto simp: entriesOf_def)
    qed
    from c1 c2 c3 show "map (\<lambda>c. case c of GetAuthorFeed a n t \<Rightarrow> a | _ \<Rightarrow> [])
          (filter isFetch ?new) = map did ?kept \<and>
        (\<forall>k. mapGet w' (cursorMap mt) k \<noteq> None \<longrightarrow> k \<in> did ` set ?kept) \<and>
        (\<forall>p\<in>set (posts mt). \<exists>f\<in>set ?kept.
           \<exists>e\<in>set (feedAt ag (cursorGet w cm) (did f)). toPost e = Inr p)"
      by blast
  qed
  have D: "g \<in> set fs \<and> \<not> keepFollow g \<and> did g \<notin> did ` set ?kept \<longrightarrow>
        (\<forall>n t. GetAuthorFeed (did g) n t \<notin> set ?new) \<and>
        (outcome = Inr mt \<longrightarrow> mapGet w' (cursorMap mt) (did g) = None)"
    using B C by blast
  from A B C D show ?thesis by blast
qed

theorem labelled_follows_are_dropped_witness:
  "validRef world0 None \<and>
   carol \<in> set [alice, bob, carol, dave] \<and>
   \<not> keepFollow carol \<and>
   did carol \<notin> did ` set (filter keepFollow [alice, bob, carol, dave]) \<and>
   filter keepFollow [alice, bob, carol, dave] = [alice, bob, dave] \<and>
   GetAuthorFeed (did carol) 10 None \<notin> set (drop (length (calls world0)) (calls world1)) \<and>
   mapGet world1 0 (did carol) = None \<and>
   map (\<lambda>c. case c of GetAuthorFeed a n t \<Rightarrow> a | _ \<Rightarrow> [])
       (filter isFetch (drop (length (calls world0)) (calls world1))) =
     [''did:plc:alice'', ''did:plc:bob'', ''did:plc:dave'']"
proof -
  let ?mt = "\<lparr>posts = demoPosts, cursorMap = 0\<rparr>"
  let ?fs = "[alice, bob, carol, dave]"
  note T = labelled_follows_are_dropped [OF demo_valid demo_run demo_root demo_follows,
      of ?mt carol]
  note T3 = T [THEN conjunct2, THEN conjunct2, THEN conjunct1, rule_format, OF refl]
  note T4 = T [THEN conjunct2, THEN conjunct2, THEN conjunct2, rule_format]
  have k: "filter keepFollow ?fs = [alice, bob, dave]"
    by (simp add: keepFollow_def alice_def bob_def carol_def dave_def mkProfile_def)
  have h1: "carol \<in> set ?fs" by simp
  have h2: "\<not> keepFollow carol"
    by (simp add: keepFollow_def carol_def mkProfile_def)
  have h3: "did carol \<notin> did ` set (filter keepFollow ?fs)"
    unfolding k by (simp add: alice_def bob_def carol_def dave_def mkProfile_def)
  note T4' = T4 [OF conjI [OF h1 conjI [OF h2 h3]]]
  have a: "GetAuthorFeed (did carol) 10 None \<notin> set (drop (length (calls world0)) (calls world1))"
    using T4' by blast
  have b: "mapGet world1 0 (did carol) = None"
    using T4' by simp
  have c: "map (\<lambda>c. case c of GetAuthorFeed a n t \<Rightarrow> a | _ \<Rightarrow> [])
       (filter isFetch (drop (length (calls world0)) (calls world1))) =
     [''did:plc:alice'', ''did:plc:bob'', ''did:plc:dave'']"
    using T3 [THEN conjunct1] unfolding k
    by (simp add: alice_def bob_def dave_def mkProfile_def)
  show ?thesis
    by (intro conjI) (fact demo_valid h1 h2 h3 k a b c)+
qed


section \<open>The batches\<close>

lemma length_slice: "length (slice xs i j) = min (j - i) (length xs - i)"
  by (simp add: slice_def)

lemma batchesFrom_lengths:
  "\<forall>b\<in>set (batchesFrom xs i). 0 < length b \<and> length b \<le> batchSize"
proof (induction xs i rule: batchesFrom.induct)
  case (1 xs i)
  show ?case
  proof (cases "i < length xs")
    case True
    then have "0 < length (slice xs i (i + batchSize))"
      and "length (slice xs i (i + batchSize)) \<le> batchSize"
      by (simp_all add: length_slice batchSize_def)
    with True "1.IH" show ?thesis
      by (simp add: batchesFrom.simps [of xs i] del: length_greater_0_conv)
  next
    case False
    then show ?thesis by (simp add: batchesFrom.simps [of xs i])
  qed
qed

lemma batchesFrom_full:
  "\<forall>b\<in>set (butlast (batchesFrom xs i)). length b = batchSize"
proof (induction xs i rule: batchesFrom.induct)
  case (1 xs i)
  show ?case
  proof (cases "i < length xs")
    case True
    note i = this
    show ?thesis
    proof (cases "i + batchSize < length xs")
      case True
      with i "1.IH" show ?thesis
        by (simp add: batchesFrom.simps [of xs i] length_slice)
    next
      case False
      then have "batchesFrom xs (i + batchSize) = []"
        by (simp add: batchesFrom.simps [of xs "i + batchSize"])
      with i show ?thesis
        by (simp add: batchesFrom.simps [of xs i])
    qed
  next
    case False
    then show ?thesis by (simp add: batchesFrom.simps [of xs i])
  qed
qed

lemma batchesFrom_23:
  assumes "length xs = 23"
  shows "map length (batchesFrom xs 0) = [5, 5, 5, 5, 3]"
proof -
  have "batchesFrom xs 25 = []"
    using assms by (simp add: batchesFrom.simps [of xs 25])
  then have "map length (batchesFrom xs 20) = [3]"
    using assms by (simp add: batchesFrom.simps [of xs 20] length_slice batchSize_def)
  then have "map length (batchesFrom xs 15) = [5, 3]"
    using assms by (simp add: batchesFrom.simps [of xs 15] length_slice batchSize_def)
  then have "map length (batchesFrom xs 10) = [5, 5, 3]"
    using assms by (simp add: batchesFrom.simps [of xs 10] length_slice batchSize_def)
  then have "map length (batchesFrom xs 5) = [5, 5, 5, 3]"
    using assms by (simp add: batchesFrom.simps [of xs 5] length_slice batchSize_def)
  then show ?thesis
    using assms by (simp add: batchesFrom.simps [of xs 0] length_slice batchSize_def)
qed

lemma mapE_concat:
  "mapE g (concat xss) = Inr ys \<Longrightarrow>
     \<exists>yss. list_all2 (\<lambda>xs ys. mapE g xs = Inr ys) xss yss \<and> ys = concat yss"
proof (induction xss arbitrary: ys)
  case Nil
  then show ?case by simp
next
  case (Cons xs xss)
  from Cons.prems obtain a b where a: "mapE g xs = Inr a" and b: "mapE g (concat xss) = Inr b"
    and ys: "ys = a @ b"
    by (auto simp: mapE_append split: sum.splits)
  from Cons.IH [OF b] obtain yss
    where "list_all2 (\<lambda>xs ys. mapE g xs = Inr ys) xss yss" and "b = concat yss"
    by blast
  with a ys have "list_all2 (\<lambda>xs ys. mapE g xs = Inr ys) (xs # xss) (a # yss) \<and>
      ys = concat (a # yss)"
    by simp
  then show ?case by blast
qed

lemma entries_by_batch:
  "filter P (concat (map F (concat bs))) = concat (map (\<lambda>b. filter P (concat (map F b))) bs)"
  by (induction bs) simp_all

lemma posts_by_batch:
  assumes "mapE toPost (filter (notSelf d) (entriesOf ag cur (concat bs))) = Inr ps"
  shows "\<exists>pss. list_all2
       (\<lambda>b qs. mapE toPost
                  (filter (\<lambda>e. did (pv_author (post e)) \<noteq> d)
                     (concat (map (\<lambda>f. case agent_getAuthorFeed ag (did f) 10 (cur (did f)) of
                                          Inl err \<Rightarrow> []
                                        | Inr page \<Rightarrow> feed page) b))) = Inr qs) bs pss \<and>
     ps = concat pss"
proof -
  let ?G = "\<lambda>b. filter (notSelf d) (concat (map (\<lambda>f. feedAt ag cur (did f)) b))"
  from assms have "mapE toPost (concat (map ?G bs)) = Inr ps"
    by (simp add: entriesOf_def entries_by_batch)
  from mapE_concat [OF this] obtain pss
    where l: "list_all2 (\<lambda>xs ys. mapE toPost xs = Inr ys) (map ?G bs) pss" and p: "ps = concat pss"
    by blast
  have g: "?G b = filter (\<lambda>e. did (pv_author (post e)) \<noteq> d)
      (concat (map (\<lambda>f. case agent_getAuthorFeed ag (did f) 10 (cur (did f)) of
                           Inl err \<Rightarrow> []
                         | Inr page \<Rightarrow> feed page) b))" for b
    by (simp add: notSelf_def [abs_def] feedAt_def [abs_def] answer_def)
  from l have "list_all2
       (\<lambda>b qs. mapE toPost
                  (filter (\<lambda>e. did (pv_author (post e)) \<noteq> d)
                     (concat (map (\<lambda>f. case agent_getAuthorFeed ag (did f) 10 (cur (did f)) of
                                          Inl err \<Rightarrow> []
                                        | Inr page \<Rightarrow> feed page) b))) = Inr qs) bs pss"
    by (simp add: list_all2_map1 g)
  with p show ?thesis by blast
qed

text \<open>
  Claim C5. The loop of \<open>getMergedTimeline\<close> cuts the kept follows into consecutive
  batches: put together they are the kept follows, each holds between one and five
  accounts, all but the last hold exactly five (23 follows give batches of 5, 5, 5, 5
  and 3). The batches are processed one after the other: after a successful call the
  request log shows, batch after batch, the batch's feed requests in the batch's order,
  followed by the diagnostics of its failed requests in the order in which the requests
  settled, and only then the requests of the next batch. The feeds are put together in
  the same order: there are the posts of the first batch, of the second, and so on, the
  posts of a batch being projected from the entries of the pages of its accounts in the
  batch's order (a failed request contributing none) without those authored by the root
  account; the returned posts are a permutation of these posts put together batch after
  batch, and when each of them has a valid timestamp they are these posts sorted stably
  by time, newest first, so that posts of equal time keep the order of the batches.
\<close>

theorem follows_fetched_in_batches_of_five:
  assumes "validRef w cm"
    and "resolveHandle ag w h = (Inr d, ws)"
    and "agent_getFollows ag d 30 = Inr fs"
  shows "concat (batchesFrom (filter keepFollow fs) 0) = filter keepFollow fs \<and>
     (\<forall>b\<in>set (batchesFrom (filter keepFollow fs) 0). 0 < length b \<and> length b \<le> 5) \<and>
     (\<forall>b\<in>set (butlast (batchesFrom (filter keepFollow fs) 0)). length b = 5) \<and>
     (length (filter keepFollow fs) = 23 \<longrightarrow>
        map length (batchesFrom (filter keepFollow fs) 0) = [5, 5, 5, 5, 3]) \<and>
     (getMergedTimeline ag getTime w h cm = (Inr mt, w') \<longrightarrow>
        calls w' = calls ws @ GetFollows d 30 #
          concat (map (\<lambda>b. map (\<lambda>f. GetAuthorFeed (did f) 10 (cursorGet w cm (did f))) b @
                            errorsOf ag (cursorGet w cm)
                              (sort_key (\<lambda>f. agent_settleTime ag (did f) 10 (cursorGet w cm (did f))) b))
                      (batchesFrom (filter keepFollow fs) 0)) \<and>
        (\<exists>pss. list_all2
                 (\<lambda>b ps. mapE toPost
                    (filter (\<lambda>e. did (pv_author (post e)) \<noteq> d)
                       (concat (map (\<lambda>f. case agent_getAuthorFeed ag (did f) 10 (cursorGet w cm (did f)) of
                                            Inl err \<Rightarrow> []
                                          | Inr page \<Rightarrow> feed page) b))) = Inr ps)
                 (batchesFrom (filter keepFollow fs) 0) pss \<and>
               mset (posts mt) = mset (concat pss) \<and>
               ((\<forall>p\<in>set (concat pss). getTime (indexedAt p) \<noteq> None) \<longrightarrow>
                  posts mt = sort_key (\<lambda>p. - timeOf getTime p) (concat pss))))"
proof -
  let ?kept = "filter keepFollow fs"
  let ?bs = "batchesFrom ?kept 0"
  let ?cur = "cursorGet w cm"
  let ?log = "\<lambda>b. map (\<lambda>f. GetAuthorFeed (did f) 10 (?cur (did f))) b @
      errorsOf ag ?cur (sort_key (\<lambda>f. agent_settleTime ag (did f) 10 (?cur (did f))) b)"
  let ?R = "\<lambda>b ps. mapE toPost
      (filter (\<lambda>e. did (pv_author (post e)) \<noteq> d)
         (concat (map (\<lambda>f. case agent_getAuthorFeed ag (did f) 10 (?cur (did f)) of
                              Inl err \<Rightarrow> []
                            | Inr page \<Rightarrow> feed page) b))) = Inr ps"
  have A: "concat ?bs = ?kept" by (simp add: concat_batchesFrom)
  have B: "\<forall>b\<in>set ?bs. 0 < length b \<and> length b \<le> 5"
    using batchesFrom_lengths [of ?kept 0] by (simp add: batchSize_def)
  have C: "\<forall>b\<in>set (butlast ?bs). length b = 5"
    using batchesFrom_full [of ?kept 0] by (simp add: batchSize_def)
  have D: "length ?kept = 23 \<longrightarrow> map length ?bs = [5, 5, 5, 5, 3]"
    using batchesFrom_23 [of ?kept] by blast
  have E: "getMergedTimeline ag getTime w h cm = (Inr mt, w') \<longrightarrow>
        calls w' = calls ws @ GetFollows d 30 # concat (map ?log ?bs) \<and>
        (\<exists>pss. list_all2 ?R ?bs pss \<and>
               mset (posts mt) = mset (concat pss) \<and>
               ((\<forall>p\<in>set (concat pss). getTime (indexedAt p) \<noteq> None) \<longrightarrow>
                  posts mt = sort_key (\<lambda>p. - timeOf getTime p) (concat pss)))"
  proof
    assume run: "getMergedTimeline ag getTime w h cm = (Inr mt, w')"
    have r1: "fst (resolveHandle ag w h) = Inr d" by (simp add: assms(2))
    have bl: "batchLog ag ?cur = ?log"
      by (simp add: batchLog_def settled_def settleAt_def request_def [abs_def] fun_eq_iff)
    have c: "calls w' = calls ws @ GetFollows d 30 # concat (map ?log ?bs)"
      using getMergedTimeline_snd_success [OF assms(1) run assms(2,3)]
      unfolding bl by simp
    from getMergedTimeline_success [OF assms(1) run r1 assms(3)] obtain ps
      where m: "mapE toPost (filter (notSelf d) (entriesOf ag ?cur ?kept)) = Inr ps"
        and s: "posts mt = arraySort (byIndexedAtDesc getTime) ps"
      by blast
    from m have "mapE toPost (filter (notSelf d) (entriesOf ag ?cur (concat ?bs))) = Inr ps"
      by (simp add: A)
    from posts_by_batch [OF this] obtain pss
      where l: "list_all2 ?R ?bs pss" and p: "ps = concat pss"
      by blast
    have s1: "mset (posts mt) = mset (concat pss)"
      by (simp add: s p mset_arraySort)
    have s2: "(\<forall>p\<in>set (concat pss). getTime (indexedAt p) \<noteq> None) \<longrightarrow>
        posts mt = sort_key (\<lambda>p. - timeOf getTime p) (concat pss)"
      unfolding s p by (rule impI) (rule arraySort_sort_key)
    from l s1 s2 have "\<exists>pss. list_all2 ?R ?bs pss \<and>
               mset (posts mt) = mset (concat pss) \<and>
               ((\<forall>p\<in>set (concat pss). getTime (indexedAt p) \<noteq> None) \<longrightarrow>
                  posts mt = sort_key (\<lambda>p. - timeOf getTime p) (concat pss))"
      by blast
    with c show "calls w' = calls ws @ GetFollows d 30 # concat (map ?log ?bs) \<and>
        (\<exists>pss. list_all2 ?R ?bs pss \<and>
               mset (posts mt) = mset (concat pss) \<and>
               ((\<forall>p\<in>set (concat pss). getTime (indexedAt p) \<noteq> None) \<longrightarrow>
                  posts mt = sort_key (\<lambda>p. - timeOf getTime p) (concat pss)))"
      by (rule conjI)
  qed
  from A B C D E show ?thesis by (intro conjI)
qed

lemma mapE_toPost_plain:
  "\<forall>f\<in>set xs. \<not> isRepost f \<Longrightarrow> \<exists>ps. mapE toPost xs = Inr ps"
proof (induction xs)
  case Nil
  show ?case by simp
next
  case (Cons x xs)
  then obtain ps where "mapE toPost xs = Inr ps" by auto
  moreover from Cons.prems have "\<exists>p. toPost x = Inr p"
    by (simp add: toPost_def Let_def)
  ultimately show ?case by auto
qed

lemma list_all2_Inr_projr:
  "list_all2 (\<lambda>x y. F x = Inr y) xs ys \<Longrightarrow> ys = map (\<lambda>x. projr (F x)) xs"
  by (induction xs ys rule: list_all2_induct) simp_all

theorem follows_fetched_in_batches_of_five_witness:
  "validRef world0 None \<and>
   resolveHandle crowdAgent world0 ''did:plc:root'' = (Inr ''did:plc:root'', world0) \<and>
   agent_getFollows crowdAgent ''did:plc:root'' 30 = Inr crowd \<and>
   length (filter keepFollow crowd) = 23 \<and>
   list_all (\<lambda>b. 0 < length b \<and> length b \<le> 5) (batchesFrom (filter keepFollow crowd) 0) \<and>
   list_all (\<lambda>b. length b = 5) (butlast (batchesFrom (filter keepFollow crowd) 0)) \<and>
   map length (batchesFrom (filter keepFollow crowd) 0) = [5, 5, 5, 5, 3] \<and>
   \<not> isl (fst (getMergedTimeline crowdAgent demoTime world0 ''did:plc:root'' None)) \<and>
   calls (snd (getMergedTimeline crowdAgent demoTime world0 ''did:plc:root'' None)) =
     [GetFollows ''did:plc:root'' 30,
      GetAuthorFeed ''did:plc:ma'' 10 None,
      GetAuthorFeed ''did:plc:mb'' 10 None,
      GetAuthorFeed ''did:plc:mc'' 10 None,
      GetAuthorFeed ''did:plc:md'' 10 None,
      GetAuthorFeed ''did:plc:me'' 10 None,
      ConsoleError ''md'' (UpstreamError ''timeout''),
      ConsoleError ''mb'' (UpstreamError ''timeout''),
      GetAuthorFeed ''did:plc:mf'' 10 None,
      GetAuthorFeed ''did:plc:mg'' 10 None,
      GetAuthorFeed ''did:plc:mh'' 10 None,
      GetAuthorFeed ''did:plc:mi'' 10 None,
      GetAuthorFeed ''did:plc:mj'' 10 None,
      ConsoleError ''mh'' (UpstreamError ''timeout''),
      GetAuthorFeed ''did:plc:mk'' 10 None,
      GetAuthorFeed ''did:plc:ml'' 10 None,
      GetAuthorFeed ''did:plc:mm'' 10 None,
      GetAuthorFeed ''did:plc:mn'' 10 None,
      GetAuthorFeed ''did:plc:mo'' 10 None,
      GetAuthorFeed ''did:plc:mp'' 10 None,
      GetAuthorFeed ''did:plc:mq'' 10 None,
      GetAuthorFeed ''did:plc:mr'' 10 None,
      GetAuthorFeed ''did:plc:ms'' 10 None,
      GetAuthorFeed ''did:plc:mt'' 10 None,
      GetAuthorFeed ''did:plc:mu'' 10 None,
      GetAuthorFeed ''did:plc:mv'' 10 None,
      GetAuthorFeed ''did:plc:mw'' 10 None] \<and>
   map uri (posts (projr (fst (getMergedTimeline crowdAgent demoTime world0 ''did:plc:root'' None)))) =
     [''at://did:plc:ma'', ''at://did:plc:mc'', ''at://did:plc:me'',
      ''at://did:plc:mf'', ''at://did:plc:mg'', ''at://did:plc:mi'', ''at://did:plc:mj'',
      ''at://did:plc:mk'', ''at://did:plc:ml'', ''at://did:plc:mm'', ''at://did:plc:mn'',
      ''at://did:plc:mo'',
      ''at://did:plc:mp'', ''at://did:plc:mq'', ''at://did:plc:mr'', ''at://did:plc:ms'',
      ''at://did:plc:mt'',
      ''at://did:plc:mu'', ''at://did:plc:mv'', ''at://did:plc:mw'']"
proof -
  let ?run = "getMergedTimeline crowdAgent demoTime world0 ''did:plc:root'' None"
  let ?bs = "batchesFrom (filter keepFollow crowd) 0"
  let ?F = "\<lambda>b. mapE toPost
      (filter (\<lambda>e. did (pv_author (post e)) \<noteq> ''did:plc:root'')
         (concat (map (\<lambda>f. case agent_getAuthorFeed crowdAgent (did f) 10
                                   (cursorGet world0 None (did f)) of
                              Inl err \<Rightarrow> []
                            | Inr page \<Rightarrow> feed page) b)))"
  have r: "resolveHandle crowdAgent world0 ''did:plc:root'' = (Inr ''did:plc:root'', world0)"
    by (simp add: resolveHandle_def startsWith_def)
  have f: "agent_getFollows crowdAgent ''did:plc:root'' 30 = Inr crowd"
    by (simp add: crowdAgent_def)
  have n: "length (filter keepFollow crowd) = 23"
    by code_simp
  have "\<forall>e\<in>set (filter (notSelf ''did:plc:root'')
      (entriesOf crowdAgent (cursorGet world0 None) (filter keepFollow crowd))). \<not> isRepost e"
    by (auto simp: entriesOf_def feedAt_def answer_def crowdAgent_def mkEntry_def isRepost_def)
  from mapE_toPost_plain [OF this] obtain ps
    where "mapE toPost (filter (notSelf ''did:plc:root'')
      (entriesOf crowdAgent (cursorGet world0 None) (filter keepFollow crowd))) = Inr ps" ..
  then have ok: "\<not> isl (fst ?run)"
    using getMergedTimeline_fst [OF demo_valid _ f, of "''did:plc:root''" demoTime] r
    by simp
  then have run: "?run = (Inr (projr (fst ?run)), snd ?run)"
    by (cases ?run) (auto simp: isl_def)
  note T = follows_fetched_in_batches_of_five [OF demo_valid r f, where getTime = demoTime
      and mt = "projr (fst ?run)" and w' = "snd ?run"]
  note T2 = T [THEN conjunct2, THEN conjunct1]
  note T3 = T [THEN conjunct2, THEN conjunct2, THEN conjunct1]
  note T4 = T [THEN conjunct2, THEN conjunct2, THEN conjunct2, THEN conjunct1, rule_format, OF n]
  note T5 = T [THEN conjunct2, THEN conjunct2, THEN conjunct2, THEN conjunct2, rule_format, OF run]
  have b2: "list_all (\<lambda>b. 0 < length b \<and> length b \<le> 5) ?bs"
    using T2 by (simp add: list_all_iff del: length_greater_0_conv)
  have b3: "list_all (\<lambda>b. length b = 5) (butlast ?bs)"
    using T3 by (simp add: list_all_iff)
  have lg: "concat (map (\<lambda>b. map (\<lambda>f. GetAuthorFeed (did f) 10 (cursorGet world0 None (did f))) b @
                            errorsOf crowdAgent (cursorGet world0 None)
                              (sort_key (\<lambda>f. agent_settleTime crowdAgent (did f) 10
                                               (cursorGet world0 None (did f))) b)) ?bs) =
     [GetAuthorFeed ''did:plc:ma'' 10 None,
      GetAuthorFeed ''did:plc:mb'' 10 None,
      GetAuthorFeed ''did:plc:mc'' 10 None,
      GetAuthorFeed ''did:plc:md'' 10 None,
      GetAuthorFeed ''did:plc:me'' 10 None,
      ConsoleError ''md'' (UpstreamError ''timeout''),
      ConsoleError ''mb'' (UpstreamError ''timeout''),
      GetAuthorFeed ''did:plc:mf'' 10 None,
      GetAuthorFeed ''did:plc:mg'' 10 None,
      GetAuthorFeed ''did:plc:mh'' 10 None,
      GetAuthorFeed ''did:plc:mi'' 10 None,
      GetAuthorFeed ''did:plc:mj'' 10 None,
      ConsoleError ''mh'' (UpstreamError ''timeout''),
      GetAuthorFeed ''did:plc:mk'' 10 None,
      GetAuthorFeed ''did:plc:ml'' 10 None,
      GetAuthorFeed ''did:plc:mm'' 10 None,
      GetAuthorFeed ''did:plc:mn'' 10 None,
      GetAuthorFeed ''did:plc:mo'' 10 None,
      GetAuthorFeed ''did:plc:mp'' 10 None,
      GetAuthorFeed ''did:plc:mq'' 10 None,
      GetAuthorFeed ''did:plc:mr'' 10 None,
      GetAuthorFeed ''did:plc:ms'' 10 None,
      GetAuthorFeed ''did:plc:mt'' 10 None,
      GetAuthorFeed ''did:plc:mu'' 10 None,
      GetAuthorFeed ''did:plc:mv'' 10 None,
      GetAuthorFeed ''did:plc:mw'' 10 None]"
    by code_simp
  have cl: "calls (snd ?run) =
     GetFollows ''did:plc:root'' 30 #
     [GetAuthorFeed ''did:plc:ma'' 10 None,
      GetAuthorFeed ''did:plc:mb'' 10 None,
      GetAuthorFeed ''did:plc:mc'' 10 None,
      GetAuthorFeed ''did:plc:md'' 10 None,
      GetAuthorFeed ''did:plc:me'' 10 None,
      ConsoleError ''md'' (UpstreamError ''timeout''),
      ConsoleError ''mb'' (UpstreamError ''timeout''),
      GetAuthorFeed ''did:plc:mf'' 10 None,
      GetAuthorFeed ''did:plc:mg'' 10 None,
      GetAuthorFeed ''did:plc:mh'' 10 None,
      GetAuthorFeed ''did:plc:mi'' 10 None,
      GetAuthorFeed ''did:plc:mj'' 10 None,
      ConsoleError ''mh'' (UpstreamError ''timeout''),
      GetAuthorFeed ''did:plc:mk'' 10 None,
      GetAuthorFeed ''did:plc:ml'' 10 None,
      GetAuthorFeed ''did:plc:mm'' 10 None,
      GetAuthorFeed ''did:plc:mn'' 10 None,
      GetAuthorFeed ''did:plc:mo'' 10 None,
      GetAuthorFeed ''did:plc:mp'' 10 None,
      GetAuthorFeed ''did:plc:mq'' 10 None,
      GetAuthorFeed ''did:plc:mr'' 10 None,
      GetAuthorFeed ''did:plc:ms'' 10 None,
      GetAuthorFeed ''did:plc:mt'' 10 None,
      GetAuthorFeed ''did:plc:mu'' 10 None,
      GetAuthorFeed ''did:plc:mv'' 10 None,
      GetAuthorFeed ''did:plc:mw'' 10 None]"
    unfolding T5 [THEN conjunct1] lg by (simp add: world0_def)
  from T5 [THEN conjunct2] obtain pss
    where l: "list_all2 (\<lambda>b ps. ?F b = Inr ps) ?bs pss"
      and s: "(\<forall>p\<in>set (concat pss). demoTime (indexedAt p) \<noteq> None) \<longrightarrow>
        posts (projr (fst ?run)) = sort_key (\<lambda>p. - timeOf demoTime p) (concat pss)"
    by blast
  have pss: "pss = map (\<lambda>b. projr (?F b)) ?bs"
    by (rule list_all2_Inr_projr [OF l])
  have v: "list_all (\<lambda>p. demoTime (indexedAt p) \<noteq> None) (concat (map (\<lambda>b. projr (?F b)) ?bs))"
    by code_simp
  have "posts (projr (fst ?run)) =
      sort_key (\<lambda>p. - timeOf demoTime p) (concat (map (\<lambda>b. projr (?F b)) ?bs))"
    using s v unfolding pss by (simp only: list_all_iff)
  moreover have "map uri (sort_key (\<lambda>p. - timeOf demoTime p)
      (concat (map (\<lambda>b. projr (?F b)) ?bs))) =
     [''at://did:plc:ma'', ''at://did:plc:mc'', ''at://did:plc:me'',
      ''at://did:plc:mf'', ''at://did:plc:mg'', ''at://did:plc:mi'', ''at://did:plc:mj'',
      ''at://did:plc:mk'', ''at://did:plc:ml'', ''at://did:plc:mm'', ''at://did:plc:mn'',
      ''at://did:plc:mo'',
      ''at://did:plc:mp'', ''at://did:plc:mq'', ''at://did:plc:mr'', ''at://did:plc:ms'',
      ''at://did:plc:mt'',
      ''at://did:plc:mu'', ''at://did:plc:mv'', ''at://did:plc:mw'']"
    by code_simp
  ultimately have u: "map uri (posts (projr (fst ?run))) =
     [''at://did:plc:ma'', ''at://did:plc:mc'', ''at://did:plc:me'',
      ''at://did:plc:mf'', ''at://did:plc:mg'', ''at://did:plc:mi'', ''at://did:plc:mj'',
      ''at://did:plc:mk'', ''at://did:plc:ml'', ''at://did:plc:mm'', ''at://did:plc:mn'',
      ''at://did:plc:mo'',
      ''at://did:plc:mp'', ''at://did:plc:mq'', ''at://did:plc:mr'', ''at://did:plc:ms'',
      ''at://did:plc:mt'',
      ''at://did:plc:mu'', ''at://did:plc:mv'', ''at://did:plc:mw'']"
    by (simp only:)
  show ?thesis
    by (intro conjI) (fact demo_valid r f n b2 b3 T4 ok cl [simplified] u)+
qed

end
